theory Spec2Isabelle
  imports Main "HOL-Library.Word"
begin

section \<open>The damage log file reader\<close>

text \<open>
  A shallow embedding of \<^verbatim>\<open>DamageLogFileReader.hpp\<close>: a \<^verbatim>\<open>QThread\<close> whose \<^verbatim>\<open>run()\<close>
  polls one log file, hands the bytes behind the last recorded offset to a
  \<^verbatim>\<open>nclog::DamageLogParser\<close> and emits Qt signals.

  The object's members, the locals of \<^verbatim>\<open>run()\<close> and the files it reads are one state
  record. \<^verbatim>\<open>run()\<close> is cut at the places where it touches state that other threads or
  the file system can change; \<open>run_step\<close> executes the code between two such places.
  The calls of other threads (\<^verbatim>\<open>setLogFilePath\<close>, \<^verbatim>\<open>setPause\<close>, \<^verbatim>\<open>QThread::start\<close>) and
  the writers of the file are actions interleaved with the steps of the loop.
\<close>

subsection \<open>Signals\<close>

text \<open>
  The signals of the class, lines 152-158. \<^verbatim>\<open>fileSizeChanged\<close> carries a \<^verbatim>\<open>qint64\<close>,
  \<^verbatim>\<open>fileEnd\<close> an \<^verbatim>\<open>int\<close> (32 bits, read as a signed value).
\<close>

datatype 'e signal =
    ErrorOccurred string
  | LogFilePathChanged string
  | PausedChanged bool
  | FileSizeChanged int
  | NewLog 'e
  | FileEnd int

subsection \<open>The parser collaborator\<close>

text \<open>
  \<^verbatim>\<open>ncloglib/DamageLogParser.hpp\<close> is not part of the class; the parser is a parameter.
  It is constructed once per \<^verbatim>\<open>run()\<close> (line 87) and lives across passes, so it has a
  state. \<open>parseStream\<close> receives what the stream yields from its get position to
  the end of the file, and returns the entries it reports through \<^verbatim>\<open>onNewEntryFunc\<close>,
  in order.
\<close>

record ('ps, 'e) DamageLogParser =
  newParser :: 'ps
  parseStream :: "'ps \<Rightarrow> string \<Rightarrow> 'e list \<times> 'ps"

subsection \<open>Files\<close>

text \<open>
  The file system: at which paths there is a file, which file that is, and the bytes
  of every file. A file is named by its path and a serial number: a file created
  at a path gets the next serial number of that path, so the file that was there
  before, removed or moved away, is another file and keeps its bytes. A stream
  stays on the file it was opened on, whatever happens to the path afterwards
  (the \<^verbatim>\<open>std::ifstream\<close> of line 94 is read at line 112).
\<close>

record filesystem =
  present :: "string \<Rightarrow> bool"
  serial :: "string \<Rightarrow> nat"
  store :: "string \<times> nat \<Rightarrow> string"

text \<open>The file at a path, and its bytes.\<close>

definition file_at :: "filesystem \<Rightarrow> string \<Rightarrow> string \<times> nat" where
  "file_at fs path = (path, serial fs path)"

definition bytes_at :: "filesystem \<Rightarrow> string \<Rightarrow> string" where
  "bytes_at fs path = store fs (file_at fs path)"

subsection \<open>State\<close>

text \<open>Where the thread stands in \<^verbatim>\<open>run()\<close>.\<close>

datatype pc =
    NotRunning      \<comment> \<open>\<^verbatim>\<open>run()\<close> not entered, or returned\<close>
  | AtRunEntry      \<comment> \<open>lines 87-91: the thread is started, \<^verbatim>\<open>run()\<close> begins\<close>
  | AtLoopHead      \<comment> \<open>line 92: \<^verbatim>\<open>while (!_stop)\<close>\<close>
  | AtOpen          \<comment> \<open>lines 94-100: open the file\<close>
  | AtSize          \<comment> \<open>lines 102-110: size, \<^verbatim>\<open>setFileSize\<close>, seek, \<^verbatim>\<open>offset = fileSize\<close>\<close>
  | AtParse         \<comment> \<open>lines 112-114: \<^verbatim>\<open>parseStream\<close>, close, \<^verbatim>\<open>emit fileEnd(offset)\<close>\<close>
  | AtPauseCheck    \<comment> \<open>lines 117-118, 122: the condition \<^verbatim>\<open>_paused && !_stop\<close>, under the mutex\<close>
  | AtPauseWait     \<comment> \<open>line 120: blocked in the timed wait (at most 1000 ms)\<close>
  | AtSleep         \<comment> \<open>line 123: \<^verbatim>\<open>msleep(1000)\<close>\<close>

record ('ps, 'e) reader =
  m_stop :: bool                    \<comment> \<open>\<^verbatim>\<open>_stop\<close>\<close>
  m_paused :: bool                  \<comment> \<open>\<^verbatim>\<open>_paused\<close>\<close>
  m_logFilePath :: string           \<comment> \<open>\<^verbatim>\<open>_logFilePath\<close>\<close>
  m_fileSize :: int                 \<comment> \<open>\<^verbatim>\<open>_fileSize\<close>, a \<^verbatim>\<open>qint64\<close>\<close>
  pc :: pc
  offset :: int                     \<comment> \<open>the local \<^verbatim>\<open>offset\<close> of \<^verbatim>\<open>run()\<close>, a \<^verbatim>\<open>std::streampos\<close>\<close>
  parser :: 'ps                     \<comment> \<open>the local \<^verbatim>\<open>parser\<close> of \<^verbatim>\<open>run()\<close>\<close>
  in_file :: "string \<times> nat"        \<comment> \<open>the file that the stream \<^verbatim>\<open>in\<close> is open on\<close>
  in_pos :: nat                     \<comment> \<open>the get position of the stream \<^verbatim>\<open>in\<close>\<close>
  files :: filesystem               \<comment> \<open>the file system\<close>
  emitted :: "'e signal list"       \<comment> \<open>every signal emitted so far, oldest first\<close>

text \<open>
  The constructor, lines 24-28: \<^verbatim>\<open>_stop(false)\<close>, \<^verbatim>\<open>_paused(true)\<close>; the other members
  keep their in-class initialisers (\<^verbatim>\<open>_fileSize = 0\<close>, an empty \<^verbatim>\<open>QString\<close>). The
  member initialiser list wins over the in-class initialiser \<^verbatim>\<open>_paused = false\<close> of
  line 169. The thread is not started; the locals of \<^verbatim>\<open>run()\<close> are given the values
  that \<^verbatim>\<open>run()\<close> initialises them with.
\<close>

definition DamageLogFileReader :: "('ps, 'e) DamageLogParser \<Rightarrow> filesystem \<Rightarrow> ('ps, 'e) reader" where
  "DamageLogFileReader P fs =
     \<lparr> m_stop = False, m_paused = True, m_logFilePath = [], m_fileSize = 0,
       pc = NotRunning, offset = - 1, parser = newParser P, in_file = ([], 0), in_pos = 0,
       files = fs, emitted = [] \<rparr>"

text \<open>The bytes of the file that the stream is open on, as they are now.\<close>

definition in_bytes :: "('ps, 'e) reader \<Rightarrow> string" where
  "in_bytes s = store (files s) (in_file s)"

definition getLogFilePath :: "('ps, 'e) reader \<Rightarrow> string" where
  "getLogFilePath s = m_logFilePath s"

definition getFileSize :: "('ps, 'e) reader \<Rightarrow> int" where
  "getFileSize s = m_fileSize s"

definition isPaused :: "('ps, 'e) reader \<Rightarrow> bool" where
  "isPaused s = m_paused s"

text \<open>\<^verbatim>\<open>QThread::isRunning()\<close>.\<close>

definition isRunning :: "('ps, 'e) reader \<Rightarrow> bool" where
  "isRunning s = (pc s \<noteq> NotRunning)"

definition emit :: "'e signal list \<Rightarrow> ('ps, 'e) reader \<Rightarrow> ('ps, 'e) reader" where
  "emit sigs s = s\<lparr>emitted := emitted s @ sigs\<rparr>"

subsection \<open>The loop\<close>

text \<open>
  \<^verbatim>\<open>setFileSize\<close>, lines 134-142: nothing when the size is the stored one, else
  store it and emit \<^verbatim>\<open>fileSizeChanged\<close>.
\<close>

definition setFileSize :: "int \<Rightarrow> ('ps, 'e) reader \<Rightarrow> ('ps, 'e) reader" where
  "setFileSize fileSize s =
     (if m_fileSize s = fileSize then s
      else emit [FileSizeChanged fileSize] (s\<lparr>m_fileSize := fileSize\<rparr>))"

text \<open>
  \<^verbatim>\<open>emit fileEnd(offset)\<close>, line 114: the signal's parameter is \<^verbatim>\<open>int\<close>, the argument a
  \<^verbatim>\<open>std::streampos\<close> holding a 64-bit offset; the conversion keeps the low 32 bits,
  read as a signed value.
\<close>

definition fileEnd_arg :: "int \<Rightarrow> int" where
  "fileEnd_arg off = sint (word_of_int off :: 32 word)"

text \<open>
  Lines 106-109: the position the stream is set to, from the offset of the last
  pass and the size just read.
\<close>

definition seek_pos :: "int \<Rightarrow> int \<Rightarrow> nat" where
  "seek_pos off fileSize = (if off < 0 \<or> off > fileSize then 0 else nat off)"

text \<open>The text of the error signal, line 98.\<close>

definition cant_open :: "string \<Rightarrow> string" where
  "cant_open path = ''Can'' @ [CHR 0x27] @ ''t open file: '' @ path"

text \<open>
  One step of \<^verbatim>\<open>run()\<close>, lines 85-125. The stream is opened on the file that is at
  \<^verbatim>\<open>_logFilePath\<close> when line 94 is executed; the size (the file is a regular file, for
  which \<^verbatim>\<open>tellg()\<close> at the end is the size) and the bytes are those of that file when
  lines 102-103 and line 112 are executed.
\<close>

definition run_step :: "('ps, 'e) DamageLogParser \<Rightarrow> ('ps, 'e) reader \<Rightarrow> ('ps, 'e) reader" where
  "run_step P s =
     (case pc s of
        NotRunning \<Rightarrow> s
      | AtRunEntry \<Rightarrow> s\<lparr>parser := newParser P, offset := - 1, pc := AtLoopHead\<rparr>
      | AtLoopHead \<Rightarrow> if m_stop s then s\<lparr>pc := NotRunning\<rparr> else s\<lparr>pc := AtOpen\<rparr>
      | AtOpen \<Rightarrow>
          if \<not> present (files s) (m_logFilePath s)
          then emit [ErrorOccurred (cant_open (m_logFilePath s))] (s\<lparr>m_stop := True, pc := NotRunning\<rparr>)
          else s\<lparr>in_file := file_at (files s) (m_logFilePath s), pc := AtSize\<rparr>
      | AtSize \<Rightarrow>
          (let fileSize = int (length (in_bytes s)) in
           (setFileSize fileSize s)
             \<lparr>in_pos := seek_pos (offset s) fileSize, offset := fileSize, pc := AtParse\<rparr>)
      | AtParse \<Rightarrow>
          (case parseStream P (parser s) (drop (in_pos s) (in_bytes s)) of
             (entries, ps) \<Rightarrow>
               emit (map NewLog entries @ [FileEnd (fileEnd_arg (offset s))])
                 (s\<lparr>parser := ps, pc := AtPauseCheck\<rparr>))
      | AtPauseCheck \<Rightarrow>
          if m_paused s \<and> \<not> m_stop s then s\<lparr>pc := AtPauseWait\<rparr> else s\<lparr>pc := AtSleep\<rparr>
      | AtPauseWait \<Rightarrow> s\<lparr>pc := AtPauseCheck\<rparr>
      | AtSleep \<Rightarrow> s\<lparr>pc := AtLoopHead\<rparr>)"

subsection \<open>The calls of other threads\<close>

text \<open>
  \<^verbatim>\<open>QThread::start()\<close>: begins \<^verbatim>\<open>run()\<close> in a new thread; nothing when the thread is
  already running. The class never calls it: its owner does.
\<close>

definition start :: "('ps, 'e) reader \<Rightarrow> ('ps, 'e) reader" where
  "start s = (if isRunning s then s else s\<lparr>pc := AtRunEntry\<rparr>)"

text \<open>
  \<^verbatim>\<open>QThread::wait()\<close>: the caller blocks until \<^verbatim>\<open>run()\<close> has returned. The thread takes
  its steps meanwhile; a thread that never returns blocks the caller for ever
  (\<open>None\<close>). The writers of the file are taken to be quiet during the call: what
  they do does not decide whether and where the thread returns once the stop flag
  is set.
\<close>

partial_function (option) wait :: "('ps, 'e) DamageLogParser \<Rightarrow> ('ps, 'e) reader \<Rightarrow> ('ps, 'e) reader option" where
  "wait P s = (if isRunning s then wait P (run_step P s) else Some s)"

declare wait.simps [code]

text \<open>\<^verbatim>\<open>stop()\<close>, lines 144-150.\<close>

definition stop :: "('ps, 'e) DamageLogParser \<Rightarrow> ('ps, 'e) reader \<Rightarrow> ('ps, 'e) reader option" where
  "stop P s =
     (let s1 = s\<lparr>m_stop := True\<rparr> in
      map_option (\<lambda>s2. s2\<lparr>m_stop := False\<rparr>) (if isRunning s1 then wait P s1 else Some s1))"

text \<open>\<^verbatim>\<open>setLogFilePath\<close>, lines 41-55.\<close>

definition setLogFilePath :: "('ps, 'e) DamageLogParser \<Rightarrow> string \<Rightarrow> ('ps, 'e) reader \<Rightarrow> ('ps, 'e) reader option" where
  "setLogFilePath P path s =
     (if path = m_logFilePath s then Some s
      else map_option (\<lambda>s1. emit [LogFilePathChanged path] (s1\<lparr>m_logFilePath := path\<rparr>)) (stop P s))"

text \<open>
  \<^verbatim>\<open>QWaitCondition::wakeAll()\<close>: a thread blocked in the wait of line 120 returns from
  it and evaluates the loop condition of line 118 again.
\<close>

definition wakeAll :: "('ps, 'e) reader \<Rightarrow> ('ps, 'e) reader" where
  "wakeAll s = (if pc s = AtPauseWait then s\<lparr>pc := AtPauseCheck\<rparr> else s)"

text \<open>\<^verbatim>\<open>setPause\<close>, lines 69-83.\<close>

definition setPause :: "bool \<Rightarrow> ('ps, 'e) reader \<Rightarrow> ('ps, 'e) reader" where
  "setPause pause s =
     (if pause = m_paused s then s
      else (let s1 = s\<lparr>m_paused := pause\<rparr>;
                s2 = (if \<not> m_paused s1 then wakeAll s1 else s1)
            in emit [PausedChanged pause] s2))"

subsection \<open>The writers of the file\<close>

text \<open>
  What other processes do to the file at a path: append bytes (creating the file
  when there is none), write new content (truncating the file in place, or creating
  it when there is none), remove it (or move it away). A log rotation is a removal
  followed by a write: the new file is not the one a stream was opened on.
\<close>

definition create_file :: "string \<Rightarrow> string \<Rightarrow> filesystem \<Rightarrow> filesystem" where
  "create_file path bytes fs =
     fs\<lparr>present := (present fs)(path := True),
        serial := (serial fs)(path := Suc (serial fs path)),
        store := (store fs)((path, Suc (serial fs path)) := bytes)\<rparr>"

definition append_file :: "string \<Rightarrow> string \<Rightarrow> ('ps, 'e) reader \<Rightarrow> ('ps, 'e) reader" where
  "append_file path bytes s =
     (let fs = files s in
      s\<lparr>files :=
          (if present fs path
           then fs\<lparr>store := (store fs)(file_at fs path := bytes_at fs path @ bytes)\<rparr>
           else create_file path bytes fs)\<rparr>)"

definition write_file :: "string \<Rightarrow> string \<Rightarrow> ('ps, 'e) reader \<Rightarrow> ('ps, 'e) reader" where
  "write_file path bytes s =
     (let fs = files s in
      s\<lparr>files :=
          (if present fs path
           then fs\<lparr>store := (store fs)(file_at fs path := bytes)\<rparr>
           else create_file path bytes fs)\<rparr>)"

definition remove_file :: "string \<Rightarrow> ('ps, 'e) reader \<Rightarrow> ('ps, 'e) reader" where
  "remove_file path s = s\<lparr>files := (files s)\<lparr>present := (present (files s))(path := False)\<rparr>\<rparr>"

subsection \<open>Schedules\<close>

text \<open>
  An execution is a list of actions: \<open>Tick\<close> is the next step of the loop's thread,
  the others are calls from the owner's thread and writes of other processes.
  A call of \<^verbatim>\<open>setLogFilePath\<close> that never returns would leave the state as it is
  (\<open>setLogFilePath_eq\<close> below shows that every call returns).
\<close>

datatype action =
    Tick
  | Start
  | SetLogFilePath string
  | SetPause bool
  | Append string string
  | Write string string
  | Remove string

fun step :: "('ps, 'e) DamageLogParser \<Rightarrow> action \<Rightarrow> ('ps, 'e) reader \<Rightarrow> ('ps, 'e) reader" where
  "step P Tick s = run_step P s"
| "step P Start s = start s"
| "step P (SetLogFilePath path) s = (case setLogFilePath P path s of Some s' \<Rightarrow> s' | None \<Rightarrow> s)"
| "step P (SetPause pause) s = setPause pause s"
| "step P (Append path bytes) s = append_file path bytes s"
| "step P (Write path bytes) s = write_file path bytes s"
| "step P (Remove path) s = remove_file path s"

fun exec :: "('ps, 'e) DamageLogParser \<Rightarrow> action list \<Rightarrow> ('ps, 'e) reader \<Rightarrow> ('ps, 'e) reader" where
  "exec P [] s = s"
| "exec P (a # as) s = exec P as (step P a s)"

text \<open>The entries delivered by \<^verbatim>\<open>newLog\<close> signals, in the order of emission.\<close>

fun delivered :: "'e signal list \<Rightarrow> 'e list" where
  "delivered [] = []"
| "delivered (NewLog e # sigs) = e # delivered sigs"
| "delivered (_ # sigs) = delivered sigs"

text \<open>The actions of the file's writers.\<close>

fun file_action :: "action \<Rightarrow> bool" where
  "file_action (Append _ _) = True"
| "file_action (Write _ _) = True"
| "file_action (Remove _) = True"
| "file_action _ = False"

subsection \<open>Sample parsers and files\<close>

text \<open>
  Two parsers to run the reader with. Both report the lines of their input, without
  the line feed. \<open>line_parser\<close> keeps an unfinished last line in its state and
  completes it in the next call; \<open>forgetful_parser\<close> drops it.
\<close>

fun split_lines :: "string \<Rightarrow> string \<Rightarrow> string list \<times> string" where
  "split_lines pending [] = ([], pending)"
| "split_lines pending (c # cs) =
     (if c = CHR 0x0A
      then (case split_lines [] cs of (ls, rest) \<Rightarrow> (pending # ls, rest))
      else split_lines (pending @ [c]) cs)"

definition line_parser :: "(string, string) DamageLogParser" where
  "line_parser = \<lparr> newParser = [], parseStream = split_lines \<rparr>"

definition forgetful_parser :: "(unit, string) DamageLogParser" where
  "forgetful_parser = \<lparr> newParser = (), parseStream = (\<lambda>_ bytes. (fst (split_lines [] bytes), ())) \<rparr>"

text \<open>A file system without files, and one with a single file.\<close>

definition no_files :: filesystem where
  "no_files = \<lparr>present = (\<lambda>_. False), serial = (\<lambda>_. 0), store = (\<lambda>_. [])\<rparr>"

definition one_file :: "string \<Rightarrow> string \<Rightarrow> filesystem" where
  "one_file path bytes = create_file path bytes no_files"

text \<open>A reader about to determine the size of the file \<^verbatim>\<open>log\<close>, holding the given bytes.\<close>

definition sample_at_size :: "string \<Rightarrow> (string, string) reader" where
  "sample_at_size bytes =
     (DamageLogFileReader line_parser (one_file ''log'' bytes))
       \<lparr>m_logFilePath := ''log'', in_file := (''log'', 1), pc := AtSize\<rparr>"

text \<open>
  How many steps a thread that finds the stop flag set takes at most until \<^verbatim>\<open>run()\<close>
  returns, from each place of the loop.
\<close>

fun steps_to_exit :: "pc \<Rightarrow> nat" where
  "steps_to_exit NotRunning = 0"
| "steps_to_exit AtLoopHead = 1"
| "steps_to_exit AtRunEntry = 2"
| "steps_to_exit AtSleep = 2"
| "steps_to_exit AtPauseCheck = 3"
| "steps_to_exit AtPauseWait = 4"
| "steps_to_exit AtParse = 4"
| "steps_to_exit AtSize = 5"
| "steps_to_exit AtOpen = 6"

subsection \<open>Invariants\<close>

text \<open>
  The offset of \<^verbatim>\<open>run()\<close> is \<open>-1\<close> until the first pass of a run has determined a size;
  from then on it is the stored size. Between the size determination of a pass and
  the end of the sleep after it, that has happened.
\<close>

definition offset_inv :: "('ps, 'e) reader \<Rightarrow> bool" where
  "offset_inv s =
     ((offset s = - 1 \<or> (0 \<le> offset s \<and> offset s = m_fileSize s)) \<and>
      (pc s \<in> {AtParse, AtPauseCheck, AtPauseWait, AtSleep} \<longrightarrow> 0 \<le> offset s))"

text \<open>A line of the log: the text and a line feed.\<close>

definition entry :: "string \<Rightarrow> string" where
  "entry l = l @ [CHR 0x0A]"

text \<open>
  A run over a file that is replaced by a shorter one: the file \<^verbatim>\<open>log\<close> holds two
  lines (16 bytes) during the first pass and is rewritten with one line (8 bytes)
  while the loop sleeps; the schedule stops where the second pass is about to
  determine the size.
\<close>

definition truncation_run :: "action list" where
  "truncation_run =
     [Write ''log'' (entry ''ENTRY-A'' @ entry ''ENTRY-C''), SetLogFilePath ''log'', SetPause False,
      Start, Tick, Tick, Tick, Tick, Tick, Tick, Tick,
      Write ''log'' (entry ''ENTRY-B''), Tick, Tick]"

definition after_truncation :: "(string, string) reader" where
  "after_truncation = exec line_parser truncation_run (DamageLogFileReader line_parser no_files)"

text \<open>
  The signals that \<^verbatim>\<open>run()\<close> emits; \<^verbatim>\<open>logFilePathChanged\<close> and \<^verbatim>\<open>pausedChanged\<close> come
  from the thread that calls \<^verbatim>\<open>setLogFilePath\<close> or \<^verbatim>\<open>setPause\<close>.
\<close>

fun from_loop :: "'e signal \<Rightarrow> bool" where
  "from_loop (LogFilePathChanged _) = False"
| "from_loop (PausedChanged _) = False"
| "from_loop _ = True"

definition loop_signals :: "'e signal list \<Rightarrow> 'e signal list" where
  "loop_signals sigs = filter from_loop sigs"

text \<open>An action that leaves the path as it is: any but \<^verbatim>\<open>setLogFilePath\<close> with another path.\<close>

fun keeps_path :: "string \<Rightarrow> action \<Rightarrow> bool" where
  "keeps_path path (SetLogFilePath p) = (p = path)"
| "keeps_path path _ = True"

text \<open>
  The order of the loop's signals, as an observer that reads them one by one. It
  knows the last size it was told (\<open>0\<close> at first, the initial \<^verbatim>\<open>_fileSize\<close>) and whether
  a pass has begun to emit. \<^verbatim>\<open>fileSizeChanged\<close> may only open a pass and must carry a
  size other than the last one; \<^verbatim>\<open>newLog\<close> may follow it or open a pass; \<^verbatim>\<open>fileEnd\<close>
  closes the pass and carries the narrowed last size; \<^verbatim>\<open>errorOccurred\<close> stands between
  passes. The signals of the calling threads are not the loop's and are skipped.
  \<open>None\<close> is an order that the observer refuses.
\<close>

fun observe :: "(int \<times> bool) option \<Rightarrow> 'e signal \<Rightarrow> (int \<times> bool) option" where
  "observe None _ = None"
| "observe (Some (sz, begun)) (FileSizeChanged n) =
     (if \<not> begun \<and> n \<noteq> sz then Some (n, True) else None)"
| "observe (Some (sz, begun)) (NewLog _) = Some (sz, True)"
| "observe (Some (sz, begun)) (FileEnd k) =
     (if k = fileEnd_arg sz then Some (sz, False) else None)"
| "observe (Some (sz, begun)) (ErrorOccurred _) =
     (if \<not> begun then Some (sz, False) else None)"
| "observe (Some (sz, begun)) (LogFilePathChanged _) = Some (sz, begun)"
| "observe (Some (sz, begun)) (PausedChanged _) = Some (sz, begun)"

definition pass_order :: "'e signal list \<Rightarrow> (int \<times> bool) option" where
  "pass_order sigs = foldl observe (Some (0, False)) sigs"

definition order_inv :: "('ps, 'e) reader \<Rightarrow> bool" where
  "order_inv s =
     ((pass_order (emitted s) = Some (m_fileSize s, False) \<or>
       (pass_order (emitted s) = Some (m_fileSize s, True) \<and> pc s = AtParse)) \<and>
      (pc s = AtParse \<longrightarrow> offset s = m_fileSize s))"

text \<open>
  A reader that is about to open a file that does not exist, and what may follow the
  failure: the file is created, \<^verbatim>\<open>setLogFilePath\<close> is called with the same path and the
  thread is started again.
\<close>

definition before_open :: "(string, string) reader" where
  "before_open =
     exec line_parser [SetLogFilePath ''gone'', SetPause False, Start, Tick, Tick]
       (DamageLogFileReader line_parser no_files)"

definition retry_same_path :: "action list" where
  "retry_same_path =
     [Tick, Write ''gone'' (entry ''ENTRY-A''), SetLogFilePath ''gone'', Start, Tick, Tick, Tick, Tick]"

text \<open>The places the thread passes through in its next \<open>n\<close> steps, the present one first.\<close>

fun trail :: "('ps, 'e) DamageLogParser \<Rightarrow> nat \<Rightarrow> ('ps, 'e) reader \<Rightarrow> pc list" where
  "trail P 0 s = [pc s]"
| "trail P (Suc n) s = pc s # trail P n (run_step P s)"

text \<open>
  Two files, \<^verbatim>\<open>log\<close> and \<^verbatim>\<open>other\<close>, of one line each; a reader that has been given the
  path \<^verbatim>\<open>log\<close>, has been started and has completed its first pass: it was constructed
  paused, so it is blocked in the pause wait.
\<close>

definition two_files :: filesystem where
  "two_files = create_file ''other'' (entry ''ENTRY-X'') (one_file ''log'' (entry ''ENTRY-A''))"

definition waiting_reader :: "(string, string) reader" where
  "waiting_reader =
     exec line_parser [SetLogFilePath ''log'', Start, Tick, Tick, Tick, Tick, Tick, Tick]
       (DamageLogFileReader line_parser two_files)"

text \<open>The waiting reader after another thread has executed line 146, \<^verbatim>\<open>_stop = true\<close>.\<close>

definition stop_requested :: "(string, string) reader" where
  "stop_requested = waiting_reader\<lparr>m_stop := True\<rparr>"

text \<open>
  Schedules in which the thread takes steps and writers append; the bytes such a
  schedule appends to the file at a path.
\<close>

fun tick_or_append :: "action \<Rightarrow> bool" where
  "tick_or_append Tick = True"
| "tick_or_append (Append _ _) = True"
| "tick_or_append _ = False"

fun appended :: "string \<Rightarrow> action list \<Rightarrow> string" where
  "appended path [] = []"
| "appended path (Append p bytes # acts) = (if p = path then bytes else []) @ appended path acts"
| "appended path (_ # acts) = appended path acts"

text \<open>
  A reader that has been resumed, has completed its first pass over the file \<^verbatim>\<open>log\<close>
  and is asleep, and a schedule for it: \<^verbatim>\<open>setPause(true)\<close>, a line is appended, the
  thread goes on.
\<close>

definition sleeping_reader :: "(string, string) reader" where
  "sleeping_reader =
     exec line_parser [SetLogFilePath ''log'', SetPause False, Start, Tick, Tick, Tick, Tick, Tick, Tick]
       (DamageLogFileReader line_parser two_files)"

definition pause_then_append :: "action list" where
  "pause_then_append =
     [SetPause True, Append ''log'' (entry ''ENTRY-B''), Tick, Tick, Tick, Tick, Tick]"

text \<open>Steps of the thread and appends to \<^verbatim>\<open>log\<close> while the reader waits.\<close>

definition appends_in_pause :: "action list" where
  "appends_in_pause =
     [Tick, Append ''log'' (entry ''ENTRY-B''), Tick, Tick, Append ''log'' (entry ''ENTRY-C''), Tick]"

text \<open>
  The thread is in the pause loop of lines 118-121 with the pause flag set and no
  stop requested, and there is a file at the path.
\<close>

definition in_pause :: "('ps, 'e) reader \<Rightarrow> bool" where
  "in_pause s = (pc s \<in> {AtPauseCheck, AtPauseWait} \<and> m_paused s \<and> \<not> m_stop s \<and>
     present (files s) (m_logFilePath s))"

subsection \<open>Tailing and parsing in one call\<close>

text \<open>
  What the parser reports when it is constructed and fed the given bytes in a single
  call.
\<close>

definition one_shot :: "('ps, 'e) DamageLogParser \<Rightarrow> string \<Rightarrow> 'e list" where
  "one_shot P bytes = fst (parseStream P (newParser P) bytes)"

text \<open>
  A parser for which it makes no difference where its input is cut: fed \<open>a\<close> and then
  \<open>b\<close>, it reports what it reports when fed \<open>a @ b\<close>, and ends in the same state.
\<close>

definition compositional :: "('ps, 'e) DamageLogParser \<Rightarrow> bool" where
  "compositional P =
     (\<forall>ps a b. parseStream P ps (a @ b) =
        (fst (parseStream P ps a) @ fst (parseStream P (snd (parseStream P ps a)) b),
         snd (parseStream P (snd (parseStream P ps a)) b)))"

text \<open>
  The actions of a tailing run: steps of the thread, appends, \<^verbatim>\<open>setPause\<close>. A schedule
  is free of races when no writer touches a file between the size determination
  of a pass and its read.
\<close>

fun tail_action :: "action \<Rightarrow> bool" where
  "tail_action Tick = True"
| "tail_action (Append _ _) = True"
| "tail_action (SetPause _) = True"
| "tail_action _ = False"

fun race_free :: "('ps, 'e) DamageLogParser \<Rightarrow> action list \<Rightarrow> ('ps, 'e) reader \<Rightarrow> bool" where
  "race_free P [] s = True"
| "race_free P (a # acts) s = ((pc s \<noteq> AtParse \<or> \<not> file_action a) \<and> race_free P acts (step P a s))"

text \<open>
  What a tailing run has established: there is a file at the path, no stop is
  requested, a stream that is open is open on that file; before the first size determination of the run
  nothing is delivered; afterwards the delivered entries and the parser's state are
  those of one call on the bytes up to the offset (during a pass: up to the read
  position, and the offset is the size of the file).
\<close>

definition parsed_upto :: "('ps, 'e) DamageLogParser \<Rightarrow> ('ps, 'e) reader \<Rightarrow> nat \<Rightarrow> string \<Rightarrow> bool" where
  "parsed_upto P s k bytes =
     (parseStream P (newParser P) (take k bytes) = (delivered (emitted s), parser s))"

definition tail_inv :: "('ps, 'e) DamageLogParser \<Rightarrow> ('ps, 'e) reader \<Rightarrow> bool" where
  "tail_inv P s =
     (let bytes = bytes_at (files s) (m_logFilePath s);
          fresh = (delivered (emitted s) = [] \<and> parser s = newParser P);
          before = ((offset s < 0 \<and> fresh) \<or>
            (0 \<le> offset s \<and> offset s \<le> int (length bytes) \<and>
             parsed_upto P s (nat (offset s)) bytes))
      in present (files s) (m_logFilePath s) \<and> \<not> m_stop s \<and>
         (case pc s of
            NotRunning \<Rightarrow> False
          | AtRunEntry \<Rightarrow> delivered (emitted s) = [] \<and> offset s < 0
          | AtSize \<Rightarrow> in_file s = file_at (files s) (m_logFilePath s) \<and> before
          | AtParse \<Rightarrow>
              in_file s = file_at (files s) (m_logFilePath s) \<and>
              offset s = int (length bytes) \<and> in_pos s \<le> length bytes \<and>
              ((in_pos s = 0 \<and> fresh) \<or> parsed_upto P s (in_pos s) bytes)
          | _ \<Rightarrow> before))"

text \<open>
  Two tailing runs. In the first an entry is written in two parts, one before the
  first pass and one before the second. In the second a line is appended between
  the size determination and the read of the first pass.
\<close>

definition split_entry_tail :: "action list" where
  "split_entry_tail =
     [SetPause False, Tick, Tick, Tick, Tick, Tick, Tick,
      Append ''log'' (entry ''-A''), Tick, Tick, Tick, Tick, Tick]"

definition split_entry_run :: "action list" where
  "split_entry_run = SetLogFilePath ''log'' # Start # split_entry_tail"

definition racing_run :: "action list" where
  "racing_run =
     [SetLogFilePath ''log'', Start, SetPause False, Tick, Tick, Tick, Tick,
      Append ''log'' (entry ''ENTRY-B''), Tick, Tick, Tick, Tick, Tick, Tick, Tick]"

text \<open>
  A log rotation: the file \<^verbatim>\<open>log\<close> is removed (or moved away) and a new file is
  written at its path. And a reader whose first run has ended with the offset 8:
  the waiting reader is given the path \<^verbatim>\<open>other\<close> and is started again.
\<close>

definition rotation :: "action list" where
  "rotation = [Remove ''log'', Write ''log'' (entry ''ENTRY-X'')]"

definition restarted_reader :: "(string, string) reader" where
  "restarted_reader = exec line_parser [SetLogFilePath ''other'', Start] waiting_reader"

section \<open>Properties\<close>

text \<open>
  C10. A freshly constructed reader is paused: right after construction, before any
  call of \<^verbatim>\<open>setPause\<close>, \<^verbatim>\<open>isPaused()\<close> returns true, whatever the parser and the file
  system are.
\<close>

theorem C10_constructed_paused: "isPaused (DamageLogFileReader P fs) = True"
  by (simp add: isPaused_def DamageLogFileReader_def)

subsection \<open>The narrowing of the offset\<close>

lemma fileEnd_arg_eq: "fileEnd_arg n = (n + 2^31) mod 2^32 - 2^31"
  unfolding fileEnd_arg_def
  by (simp add: sint_sbintrunc' signed_take_bit_eq_take_bit_shift take_bit_eq_mod)

lemma fileEnd_arg_small: "0 \<le> n \<Longrightarrow> n < 2^31 \<Longrightarrow> fileEnd_arg n = n"
  unfolding fileEnd_arg_eq by simp

lemma fileEnd_arg_range: "- (2^31) \<le> fileEnd_arg n \<and> fileEnd_arg n < 2^31"
proof -
  have "0 \<le> (n + 2^31) mod 2^32" "(n + 2^31) mod 2^32 < (2^32 :: int)" by simp_all
  then show ?thesis unfolding fileEnd_arg_eq by simp
qed

lemma fileEnd_arg_large: "2^31 \<le> n \<Longrightarrow> fileEnd_arg n \<noteq> n"
  using fileEnd_arg_range [of n] by linarith

lemma fileEnd_arg_mod: "fileEnd_arg n mod 2^32 = n mod 2^32"
  unfolding fileEnd_arg_eq by (simp add: mod_diff_left_eq)

subsection \<open>File actions\<close>

lemma step_file_action: "file_action a \<Longrightarrow> \<exists>fs. step P a s = s\<lparr>files := fs\<rparr>"
  by (cases a) (auto simp: append_file_def write_file_def remove_file_def Let_def)

lemma exec_file_actions: "list_all file_action acts \<Longrightarrow> \<exists>fs. exec P acts s = s\<lparr>files := fs\<rparr>"
proof (induction acts arbitrary: s)
  case Nil
  have "s = s\<lparr>files := files s\<rparr>" by simp
  then show ?case by (metis exec.simps(1))
next
  case (Cons a acts)
  then obtain fs where a: "step P a s = s\<lparr>files := fs\<rparr>"
    using step_file_action [of a P s] by auto
  from Cons.prems have "list_all file_action acts" by simp
  from Cons.IH [OF this, of "s\<lparr>files := fs\<rparr>"]
  obtain fs' where "exec P acts (s\<lparr>files := fs\<rparr>) = s\<lparr>files := fs\<rparr>\<lparr>files := fs'\<rparr>"
    by blast
  with a show ?case by (auto intro: exI [of _ fs'])
qed

lemma append_file_fields [simp]:
  "pc (append_file p b s) = pc s" "offset (append_file p b s) = offset s"
  "parser (append_file p b s) = parser s" "in_pos (append_file p b s) = in_pos s"
  "in_file (append_file p b s) = in_file s" "emitted (append_file p b s) = emitted s"
  "m_stop (append_file p b s) = m_stop s" "m_paused (append_file p b s) = m_paused s"
  "m_logFilePath (append_file p b s) = m_logFilePath s" "m_fileSize (append_file p b s) = m_fileSize s"
  by (simp_all add: append_file_def Let_def)

lemma write_file_fields [simp]:
  "pc (write_file p b s) = pc s" "offset (write_file p b s) = offset s"
  "parser (write_file p b s) = parser s" "in_pos (write_file p b s) = in_pos s"
  "in_file (write_file p b s) = in_file s" "emitted (write_file p b s) = emitted s"
  "m_stop (write_file p b s) = m_stop s" "m_paused (write_file p b s) = m_paused s"
  "m_logFilePath (write_file p b s) = m_logFilePath s" "m_fileSize (write_file p b s) = m_fileSize s"
  by (simp_all add: write_file_def Let_def)

lemma remove_file_fields [simp]:
  "pc (remove_file p s) = pc s" "offset (remove_file p s) = offset s"
  "parser (remove_file p s) = parser s" "in_pos (remove_file p s) = in_pos s"
  "in_file (remove_file p s) = in_file s" "emitted (remove_file p s) = emitted s"
  "m_stop (remove_file p s) = m_stop s" "m_paused (remove_file p s) = m_paused s"
  "m_logFilePath (remove_file p s) = m_logFilePath s" "m_fileSize (remove_file p s) = m_fileSize s"
  by (simp_all add: remove_file_def)

lemma bytes_at_append:
  "bytes_at (files (append_file p b s)) q =
     (if q = p then (if present (files s) p then bytes_at (files s) p @ b else b)
      else bytes_at (files s) q)"
  by (simp add: append_file_def Let_def bytes_at_def file_at_def create_file_def)

lemma present_append: "present (files (append_file p b s)) q = (present (files s) q \<or> q = p)"
  by (simp add: append_file_def Let_def create_file_def)

lemma file_at_append:
  "present (files s) q \<Longrightarrow> file_at (files (append_file p b s)) q = file_at (files s) q"
  by (auto simp: append_file_def Let_def file_at_def create_file_def)

lemma in_bytes_update [simp]:
  "in_bytes (s\<lparr>pc := p\<rparr>) = in_bytes s" "in_bytes (s\<lparr>in_pos := k\<rparr>) = in_bytes s"
  "in_bytes (s\<lparr>offset := n\<rparr>) = in_bytes s" "in_bytes (s\<lparr>parser := ps\<rparr>) = in_bytes s"
  "in_bytes (s\<lparr>emitted := sigs\<rparr>) = in_bytes s" "in_bytes (s\<lparr>m_stop := b\<rparr>) = in_bytes s"
  "in_bytes (s\<lparr>m_paused := b\<rparr>) = in_bytes s" "in_bytes (s\<lparr>m_logFilePath := path\<rparr>) = in_bytes s"
  "in_bytes (s\<lparr>m_fileSize := n\<rparr>) = in_bytes s" "in_bytes (emit sigs s) = in_bytes s"
  by (simp_all add: in_bytes_def emit_def)

lemma run_step_AtSize:
  "pc s = AtSize \<Longrightarrow>
   run_step P s = (setFileSize (int (length (in_bytes s))) s)
      \<lparr>in_pos := seek_pos (offset s) (int (length (in_bytes s))),
       offset := int (length (in_bytes s)), pc := AtParse\<rparr>"
  by (simp add: run_step_def Let_def)

lemma run_step_AtParse:
  "pc s = AtParse \<Longrightarrow>
   run_step P s =
     emit (map NewLog (fst (parseStream P (parser s) (drop (in_pos s) (in_bytes s)))) @
           [FileEnd (fileEnd_arg (offset s))])
       (s\<lparr>parser := snd (parseStream P (parser s) (drop (in_pos s) (in_bytes s))),
          pc := AtPauseCheck\<rparr>)"
  by (simp add: run_step_def Let_def split: prod.splits)

lemma setFileSize_fields [simp]:
  "pc (setFileSize n s) = pc s" "offset (setFileSize n s) = offset s"
  "parser (setFileSize n s) = parser s" "in_pos (setFileSize n s) = in_pos s"
  "files (setFileSize n s) = files s" "m_stop (setFileSize n s) = m_stop s"
  "m_paused (setFileSize n s) = m_paused s" "m_logFilePath (setFileSize n s) = m_logFilePath s"
  "m_fileSize (setFileSize n s) = n" "in_file (setFileSize n s) = in_file s"
  "in_bytes (setFileSize n s) = in_bytes s"
  by (simp_all add: setFileSize_def emit_def in_bytes_def)

lemma setFileSize_emitted:
  "emitted (setFileSize n s) = emitted s @ (if m_fileSize s = n then [] else [FileSizeChanged n])"
  by (simp add: setFileSize_def emit_def)

subsection \<open>The payload of the batch end\<close>

text \<open>
  C9. The payload of \<^verbatim>\<open>fileEnd\<close> is a 32-bit signed \<^verbatim>\<open>int\<close>, the size and the offset are
  64-bit values. A pass records the size \<open>n\<close> of the file as its offset and, whatever
  the writers of the file do meanwhile, ends with \<^verbatim>\<open>fileEnd\<close> carrying that offset
  narrowed to 32 bits. For a recorded size below \<open>2^31\<close> (one that fits the signed
  payload) the payload is the size itself. From \<open>2^31\<close> on the payload is not the
  offset: it is the value of the signed 32-bit range congruent to it modulo \<open>2^32\<close>.
\<close>

theorem C9_fileEnd_narrowed:
  "pc s = AtSize \<Longrightarrow> list_all file_action acts \<Longrightarrow>
   (let n = int (length (in_bytes s));
        s' = run_step P (exec P acts (run_step P s))
    in offset (run_step P s) = n \<and>
       last (emitted s') = FileEnd (fileEnd_arg n) \<and>
       (n < 2^31 \<longrightarrow> fileEnd_arg n = n) \<and>
       (2^31 \<le> n \<longrightarrow> fileEnd_arg n \<noteq> n \<and> fileEnd_arg n mod 2^32 = n mod 2^32 \<and>
          - (2^31) \<le> fileEnd_arg n \<and> fileEnd_arg n < 2^31))"
proof -
  assume at: "pc s = AtSize" and acts: "list_all file_action acts"
  define n where "n = int (length (in_bytes s))"
  define s1 where "s1 = run_step P s"
  have s1: "offset s1 = n" "pc s1 = AtParse"
    using at by (simp_all add: s1_def n_def run_step_AtSize)
  obtain fs where s2: "exec P acts s1 = s1\<lparr>files := fs\<rparr>"
    using exec_file_actions [OF acts] by blast
  have "last (emitted (run_step P (exec P acts s1))) = FileEnd (fileEnd_arg n)"
    using s1 by (simp add: s2 run_step_AtParse emit_def)
  moreover have "n < 2^31 \<longrightarrow> fileEnd_arg n = n"
    using fileEnd_arg_small [of n] by (simp add: n_def)
  moreover have "2^31 \<le> n \<longrightarrow> fileEnd_arg n \<noteq> n"
    using fileEnd_arg_large by blast
  ultimately show ?thesis
    using s1 fileEnd_arg_mod [of n] fileEnd_arg_range [of n]
    unfolding Let_def n_def [symmetric] s1_def [symmetric] by blast
qed

theorem C9_fileEnd_narrowed_witness:
  "last (emitted (run_step line_parser (exec line_parser [] (run_step line_parser (sample_at_size ''ENTRY-A''))))) = FileEnd 7 \<and>
   last (emitted (run_step line_parser (exec line_parser [] (run_step line_parser
      (sample_at_size (replicate (2^31 + 5) (CHR ''x''))))))) = FileEnd (- 2147483643)"
proof -
  have a: "pc (sample_at_size bytes) = AtSize" for bytes by (simp add: sample_at_size_def DamageLogFileReader_def)
  have n: "int (length (in_bytes (sample_at_size bytes))) = int (length bytes)" for bytes
    by (simp add: sample_at_size_def DamageLogFileReader_def one_file_def create_file_def
        no_files_def in_bytes_def)
  have f: "fileEnd_arg 7 = 7" "fileEnd_arg (2147483653) = - 2147483643"
    by (simp_all add: fileEnd_arg_def)
  show ?thesis
    using C9_fileEnd_narrowed [OF a, of "[]" "''ENTRY-A''" line_parser]
      C9_fileEnd_narrowed [OF a, of "[]" "replicate (2^31 + 5) (CHR ''x'')" line_parser]
    by (simp add: Let_def n f)
qed

subsection \<open>Waiting for the thread\<close>

lemma run_step_NotRunning: "pc s = NotRunning \<Longrightarrow> run_step P s = s"
  by (simp add: run_step_def)

lemma funpow_run_step_NotRunning: "pc s = NotRunning \<Longrightarrow> (run_step P ^^ n) s = s"
  by (induction n) (simp_all add: run_step_NotRunning)

lemma run_step_m_stop: "m_stop s \<Longrightarrow> m_stop (run_step P s)"
  by (simp add: run_step_def Let_def setFileSize_def emit_def split: pc.splits prod.splits)

lemma run_step_towards_exit:
  "m_stop s \<Longrightarrow> pc s \<noteq> NotRunning \<Longrightarrow> steps_to_exit (pc (run_step P s)) < steps_to_exit (pc s)"
  by (simp add: run_step_def Let_def emit_def split: pc.splits prod.splits)

lemma wait_stop_requested:
  "m_stop s \<Longrightarrow> steps_to_exit (pc s) \<le> n \<Longrightarrow> wait P s = Some ((run_step P ^^ n) s)"
proof (induction n arbitrary: s)
  case 0
  then have "pc s = NotRunning" by (cases "pc s") simp_all
  then show ?case by (subst wait.simps) (simp add: isRunning_def)
next
  case (Suc n)
  show ?case
  proof (cases "pc s = NotRunning")
    case True
    then show ?thesis
      by (subst wait.simps) (simp add: isRunning_def funpow_run_step_NotRunning del: funpow.simps)
  next
    case False
    with Suc.prems have "steps_to_exit (pc (run_step P s)) \<le> n"
      using run_step_towards_exit [of s P] by simp
    from Suc.IH [OF run_step_m_stop [OF Suc.prems(1)] this]
    have "wait P (run_step P s) = Some ((run_step P ^^ n) (run_step P s))" .
    with False show ?thesis
      by (subst wait.simps) (simp add: isRunning_def funpow_swap1)
  qed
qed

lemma steps_to_exit_le: "steps_to_exit p \<le> 6"
  by (cases p) simp_all

lemma wait_returns: "m_stop s \<Longrightarrow> wait P s = Some ((run_step P ^^ 6) s)"
  by (rule wait_stop_requested) (simp_all add: steps_to_exit_le)

lemma funpow_run_step_exits:
  "m_stop s \<Longrightarrow> steps_to_exit (pc s) \<le> n \<Longrightarrow> pc ((run_step P ^^ n) s) = NotRunning"
proof (induction n arbitrary: s)
  case 0
  then show ?case by (cases "pc s") simp_all
next
  case (Suc n)
  show ?case
  proof (cases "pc s = NotRunning")
    case True
    then show ?thesis by (simp add: funpow_run_step_NotRunning del: funpow.simps)
  next
    case False
    with Suc.prems have "steps_to_exit (pc (run_step P s)) \<le> n"
      using run_step_towards_exit [of s P] by simp
    from Suc.IH [OF run_step_m_stop [OF Suc.prems(1)] this]
    show ?thesis by (simp add: funpow_swap1)
  qed
qed

lemma stop_eq:
  "stop P s = Some (((run_step P ^^ 6) (s\<lparr>m_stop := True\<rparr>))\<lparr>m_stop := False\<rparr>)"
proof (cases "isRunning s")
  case True
  then show ?thesis by (simp add: stop_def Let_def isRunning_def wait_returns)
next
  case False
  then have "(run_step P ^^ 6) (s\<lparr>m_stop := True\<rparr>) = s\<lparr>m_stop := True\<rparr>"
    by (intro funpow_run_step_NotRunning) (simp add: isRunning_def)
  with False show ?thesis by (simp add: stop_def Let_def isRunning_def)
qed

lemma setLogFilePath_eq:
  "setLogFilePath P path s =
     (if path = m_logFilePath s then Some s
      else Some (emit [LogFilePathChanged path]
        (((run_step P ^^ 6) (s\<lparr>m_stop := True\<rparr>))\<lparr>m_stop := False, m_logFilePath := path\<rparr>)))"
  by (simp add: setLogFilePath_def stop_eq)

subsection \<open>Invariants of every execution\<close>

lemma funpow_invariant:
  assumes "\<And>s. I s \<Longrightarrow> I (f s)" and "I s"
  shows "I ((f ^^ n) s)"
  using assms by (induction n) simp_all

lemma step_invariant:
  assumes I: "I s"
    and run: "\<And>s. I s \<Longrightarrow> I (run_step P s)"
    and stp: "\<And>s b. I s \<Longrightarrow> I (s\<lparr>m_stop := b\<rparr>)"
    and pth: "\<And>s p. I s \<Longrightarrow> pc s = NotRunning \<Longrightarrow> I (s\<lparr>m_logFilePath := p\<rparr>)"
    and emt: "\<And>s p. I s \<Longrightarrow> I (emit [LogFilePathChanged p] s)"
    and pau: "\<And>s b. I s \<Longrightarrow> I (setPause b s)"
    and sta: "\<And>s. I s \<Longrightarrow> I (start s)"
    and fls: "\<And>s fs. I s \<Longrightarrow> I (s\<lparr>files := fs\<rparr>)"
  shows "I (step P a s)"
proof (cases a)
  case Tick
  then show ?thesis using I run by simp
next
  case Start
  then show ?thesis using I sta by simp
next
  case (SetLogFilePath path)
  let ?s1 = "(run_step P ^^ 6) (s\<lparr>m_stop := True\<rparr>)"
  have "I ?s1"
    using run stp [OF I] by (rule funpow_invariant [where I = I and f = "run_step P"])
  moreover have "pc ?s1 = NotRunning"
    by (rule funpow_run_step_exits) (simp_all add: steps_to_exit_le)
  ultimately have "I (emit [LogFilePathChanged path] (?s1\<lparr>m_stop := False, m_logFilePath := path\<rparr>))"
    using stp pth emt by simp
  with I SetLogFilePath show ?thesis by (simp add: setLogFilePath_eq)
next
  case (SetPause b)
  then show ?thesis using I pau by simp
next
  case (Append path bytes)
  then obtain fs where "step P a s = s\<lparr>files := fs\<rparr>"
    using step_file_action [of a P s] by auto
  then show ?thesis using I fls by simp
next
  case (Write path bytes)
  then obtain fs where "step P a s = s\<lparr>files := fs\<rparr>"
    using step_file_action [of a P s] by auto
  then show ?thesis using I fls by simp
next
  case (Remove path)
  then obtain fs where "step P a s = s\<lparr>files := fs\<rparr>"
    using step_file_action [of a P s] by auto
  then show ?thesis using I fls by simp
qed

lemma exec_invariant:
  assumes "I s" and "\<And>s a. I s \<Longrightarrow> I (step P a s)"
  shows "I (exec P acts s)"
  using assms by (induction acts arbitrary: s) simp_all

subsection \<open>Delivered entries\<close>

lemma delivered_append: "delivered (xs @ ys) = delivered xs @ delivered ys"
  by (induction xs rule: delivered.induct) simp_all

lemma delivered_NewLog: "delivered (map NewLog es) = es"
  by (induction es) simp_all

subsection \<open>The offset and the stored size\<close>

lemma offset_inv_run_step: "offset_inv s \<Longrightarrow> offset_inv (run_step P s)"
  by (cases "pc s")
    (auto simp: offset_inv_def run_step_def Let_def emit_def setFileSize_def split: prod.splits)

lemma offset_inv_setPause: "offset_inv s \<Longrightarrow> offset_inv (setPause b s)"
  by (auto simp: offset_inv_def setPause_def wakeAll_def emit_def Let_def)

lemma offset_inv_start: "offset_inv s \<Longrightarrow> offset_inv (start s)"
  by (auto simp: offset_inv_def start_def isRunning_def)

lemma offset_inv_step: "offset_inv s \<Longrightarrow> offset_inv (step P a s)"
  by (rule step_invariant [where I = offset_inv])
    (simp_all add: offset_inv_run_step offset_inv_setPause offset_inv_start,
     simp_all add: offset_inv_def emit_def)

lemma offset_inv_exec: "offset_inv s \<Longrightarrow> offset_inv (exec P acts s)"
  by (rule exec_invariant [where I = offset_inv]) (simp_all add: offset_inv_step)

lemma offset_inv_constructed: "offset_inv (DamageLogFileReader P fs)"
  by (simp add: offset_inv_def DamageLogFileReader_def)

text \<open>
  C2. In every state an execution reaches from a constructed reader, the offset is
  either still the \<open>-1\<close> of a run that has not determined a size yet, or lies between
  \<open>0\<close> and the stored file size; the latter from the size determination of a pass
  until the next pass begins, so after every pass that was not ended by a failed
  open. A pass that finds the file smaller than the offset (the file was truncated
  or replaced since the last pass) sets the read position to \<open>0\<close>: the first pass after
  the truncation reads the file from its beginning, and records the new size.
\<close>

theorem C2_offset_within_size:
  "(let r = exec P acts (DamageLogFileReader P fs) in
      (offset r = - 1 \<or> (0 \<le> offset r \<and> offset r \<le> m_fileSize r)) \<and>
      (pc r \<in> {AtParse, AtPauseCheck, AtPauseWait, AtSleep} \<longrightarrow>
         0 \<le> offset r \<and> offset r \<le> m_fileSize r)) \<and>
   (pc s = AtSize \<longrightarrow>
      (let n = int (length (in_bytes s)); s1 = run_step P s in
         0 \<le> offset s1 \<and> offset s1 \<le> m_fileSize s1 \<and> m_fileSize s1 = n \<and>
         (n < offset s \<longrightarrow> in_pos s1 = 0 \<and>
            delivered (emitted (run_step P s1)) = delivered (emitted s1) @
              fst (parseStream P (parser s) (in_bytes s)))))"
proof -
  have "offset_inv (exec P acts (DamageLogFileReader P fs))"
    by (rule offset_inv_exec [OF offset_inv_constructed])
  then have global: "let r = exec P acts (DamageLogFileReader P fs) in
      (offset r = - 1 \<or> (0 \<le> offset r \<and> offset r \<le> m_fileSize r)) \<and>
      (pc r \<in> {AtParse, AtPauseCheck, AtPauseWait, AtSleep} \<longrightarrow>
         0 \<le> offset r \<and> offset r \<le> m_fileSize r)"
    unfolding offset_inv_def Let_def by auto
  have pass: "pc s = AtSize \<longrightarrow>
      (let n = int (length (in_bytes s)); s1 = run_step P s in
         0 \<le> offset s1 \<and> offset s1 \<le> m_fileSize s1 \<and> m_fileSize s1 = n \<and>
         (n < offset s \<longrightarrow> in_pos s1 = 0 \<and>
            delivered (emitted (run_step P s1)) = delivered (emitted s1) @
              fst (parseStream P (parser s) (in_bytes s))))"
  proof
    assume at: "pc s = AtSize"
    show "let n = int (length (in_bytes s)); s1 = run_step P s in
         0 \<le> offset s1 \<and> offset s1 \<le> m_fileSize s1 \<and> m_fileSize s1 = n \<and>
         (n < offset s \<longrightarrow> in_pos s1 = 0 \<and>
            delivered (emitted (run_step P s1)) = delivered (emitted s1) @
              fst (parseStream P (parser s) (in_bytes s)))"
      using at
      by (simp add: Let_def run_step_AtSize run_step_AtParse seek_pos_def emit_def delivered_append delivered_NewLog)
  qed
  from global pass show ?thesis by (rule conjI)
qed


lemma exec_append: "exec P (as @ bs) s = exec P bs (exec P as s)"
  by (induction as arbitrary: s) simp_all

theorem C2_offset_within_size_witness:
  "pc after_truncation = AtSize \<and> offset after_truncation = 16 \<and>
   pc (run_step line_parser after_truncation) = AtParse \<and>
   int (length (in_bytes after_truncation)) = 8 \<and>
   in_pos (run_step line_parser after_truncation) = 0 \<and>
   0 \<le> offset (run_step line_parser after_truncation) \<and>
   offset (run_step line_parser after_truncation) \<le> m_fileSize (run_step line_parser after_truncation) \<and>
   m_fileSize (run_step line_parser after_truncation) = 8 \<and>
   delivered (emitted (run_step line_parser (run_step line_parser after_truncation))) =
     [''ENTRY-A'', ''ENTRY-C'', ''ENTRY-B'']"
proof -
  have at: "pc after_truncation = AtSize"
    unfolding after_truncation_def truncation_run_def by code_simp
  have off: "offset after_truncation = 16"
    unfolding after_truncation_def truncation_run_def by code_simp
  have len: "int (length (in_bytes after_truncation)) = 8"
    unfolding after_truncation_def truncation_run_def by code_simp
  have bytes: "in_bytes after_truncation = entry ''ENTRY-B''"
    unfolding after_truncation_def truncation_run_def by code_simp
  have before: "delivered (emitted after_truncation) = [''ENTRY-A'', ''ENTRY-C'']"
    unfolding after_truncation_def truncation_run_def by code_simp
  have ps: "parser after_truncation = []"
    unfolding after_truncation_def truncation_run_def by code_simp
  have new: "fst (parseStream line_parser [] (entry ''ENTRY-B'')) = [''ENTRY-B'']"
    by code_simp
  have same: "delivered (emitted (run_step line_parser after_truncation)) = delivered (emitted after_truncation)"
    using at by (simp add: run_step_AtSize setFileSize_emitted delivered_append)
  have r: "exec line_parser (truncation_run @ [Tick]) (DamageLogFileReader line_parser no_files) =
      run_step line_parser after_truncation"
    by (simp add: exec_append after_truncation_def)
  have pass: "pc (run_step line_parser after_truncation) = AtParse"
    using at by (simp add: run_step_AtSize)
  from C2_offset_within_size [of line_parser "truncation_run @ [Tick]" no_files after_truncation]
    at off len pass
  have "in_pos (run_step line_parser after_truncation) = 0 \<and>
        0 \<le> offset (run_step line_parser after_truncation) \<and>
        offset (run_step line_parser after_truncation) \<le> m_fileSize (run_step line_parser after_truncation) \<and>
        m_fileSize (run_step line_parser after_truncation) = 8 \<and>
        delivered (emitted (run_step line_parser (run_step line_parser after_truncation))) =
          [''ENTRY-A'', ''ENTRY-C'', ''ENTRY-B'']"
    by (simp add: Let_def r bytes before ps new same)
  with at off len pass show ?thesis by simp
qed

subsection \<open>The start of a pass and what the parser is fed\<close>

lemma run_entry_to_size:
  assumes "pc s = AtRunEntry" "\<not> m_stop s" "present (files s) (m_logFilePath s)"
  shows "run_step P (run_step P (run_step P s)) =
     s\<lparr>parser := newParser P, offset := - 1, in_file := file_at (files s) (m_logFilePath s),
       pc := AtSize\<rparr>"
  using assms by (simp add: run_step_def)

text \<open>
  C3 (amended). The first pass of a run: \<^verbatim>\<open>run()\<close> starts with a new parser and the
  offset \<open>-1\<close>, whatever an earlier run has left, opens the file that is at the path
  and sets the stream to position 0. In every pass the stream is set to position 0
  when the offset is still negative or exceeds the size just determined, and to
  the offset otherwise. The offset is set to that size before the parser is fed:
  nothing has been delivered and the parser has not been touched when it is set.
  The parser is then handed the stream, which is still on the file that was opened,
  from that position to the end of that file as it is when it is read, whatever
  writers did after the size determination; bytes appended after the size
  determination lie at or behind the recorded offset, where the next pass starts
  if the file it finds is not shorter.
\<close>

theorem C3_start_offset_then_feed:
  "(pc s = AtRunEntry \<longrightarrow> \<not> m_stop s \<longrightarrow> present (files s) (m_logFilePath s) \<longrightarrow>
      (let s3 = run_step P (run_step P (run_step P s))
       in pc s3 = AtSize \<and> offset s3 = - 1 \<and> parser s3 = newParser P \<and>
          in_file s3 = file_at (files s) (m_logFilePath s) \<and> emitted s3 = emitted s \<and>
          in_pos (run_step P s3) = 0)) \<and>
   (pc s = AtSize \<longrightarrow> list_all file_action acts \<longrightarrow>
      (let n = int (length (in_bytes s));
           s1 = run_step P s; s2 = exec P acts s1; s3 = run_step P s2
       in in_pos s1 = (if offset s < 0 \<or> n < offset s then 0 else nat (offset s)) \<and>
          offset s1 = n \<and> pc s1 = AtParse \<and> parser s1 = parser s \<and> in_file s1 = in_file s \<and>
          delivered (emitted s1) = delivered (emitted s) \<and>
          delivered (emitted s3) = delivered (emitted s) @
            fst (parseStream P (parser s) (drop (in_pos s1) (store (files s2) (in_file s)))) \<and>
          offset s3 = n \<and>
          (\<forall>n'. n \<le> n' \<longrightarrow> seek_pos (offset s3) n' = nat n)))"
proof -
  have first: "let s3 = run_step P (run_step P (run_step P s))
       in pc s3 = AtSize \<and> offset s3 = - 1 \<and> parser s3 = newParser P \<and>
          in_file s3 = file_at (files s) (m_logFilePath s) \<and> emitted s3 = emitted s \<and>
          in_pos (run_step P s3) = 0"
    if "pc s = AtRunEntry" "\<not> m_stop s" "present (files s) (m_logFilePath s)"
    unfolding run_entry_to_size [OF that] Let_def
    by (simp add: run_step_AtSize seek_pos_def)
  have pass: "let n = int (length (in_bytes s));
           s1 = run_step P s; s2 = exec P acts s1; s3 = run_step P s2
       in in_pos s1 = (if offset s < 0 \<or> n < offset s then 0 else nat (offset s)) \<and>
          offset s1 = n \<and> pc s1 = AtParse \<and> parser s1 = parser s \<and> in_file s1 = in_file s \<and>
          delivered (emitted s1) = delivered (emitted s) \<and>
          delivered (emitted s3) = delivered (emitted s) @
            fst (parseStream P (parser s) (drop (in_pos s1) (store (files s2) (in_file s)))) \<and>
          offset s3 = n \<and>
          (\<forall>n'. n \<le> n' \<longrightarrow> seek_pos (offset s3) n' = nat n)"
    if at: "pc s = AtSize" and acts: "list_all file_action acts"
  proof -
    define n where "n = int (length (in_bytes s))"
    define s1 where "s1 = run_step P s"
    have s1: "in_pos s1 = (if offset s < 0 \<or> n < offset s then 0 else nat (offset s))"
      "offset s1 = n" "pc s1 = AtParse" "parser s1 = parser s" "in_file s1 = in_file s"
      "delivered (emitted s1) = delivered (emitted s)"
      using at
      by (simp_all add: s1_def n_def run_step_AtSize seek_pos_def setFileSize_emitted delivered_append)
    obtain fs where s2: "exec P acts s1 = s1\<lparr>files := fs\<rparr>"
      using exec_file_actions [OF acts] by blast
    define s3 where "s3 = run_step P (exec P acts s1)"
    have s3: "delivered (emitted s3) = delivered (emitted s) @
           fst (parseStream P (parser s) (drop (in_pos s1) (store (files (exec P acts s1)) (in_file s))))"
      "offset s3 = n"
      using s1
      by (simp_all add: s3_def s2 run_step_AtParse emit_def delivered_append delivered_NewLog
          in_bytes_def)
    have "\<forall>n'. n \<le> n' \<longrightarrow> seek_pos (offset s3) n' = nat n"
      using s3(2) by (simp add: seek_pos_def n_def)
    with s1 s3 show ?thesis
      unfolding Let_def n_def [symmetric] s1_def [symmetric] s3_def [symmetric] by blast
  qed
  from first pass show ?thesis by blast
qed

theorem C3_start_offset_then_feed_witness:
  "pc (sample_at_size (entry ''ENTRY-A'')) = AtSize \<and>
   in_pos (run_step line_parser (sample_at_size (entry ''ENTRY-A''))) = 0 \<and>
   offset (run_step line_parser (sample_at_size (entry ''ENTRY-A''))) = 8 \<and>
   delivered (emitted (run_step line_parser (exec line_parser [Append ''log'' (entry ''ENTRY-B'')]
      (run_step line_parser (sample_at_size (entry ''ENTRY-A'')))))) = [''ENTRY-A'', ''ENTRY-B''] \<and>
   seek_pos (offset (run_step line_parser (exec line_parser [Append ''log'' (entry ''ENTRY-B'')]
      (run_step line_parser (sample_at_size (entry ''ENTRY-A'')))))) 16 = 8 \<and>
   bytes_at (files (exec line_parser rotation
      (run_step line_parser (sample_at_size (entry ''ENTRY-A''))))) ''log'' = entry ''ENTRY-X'' \<and>
   delivered (emitted (run_step line_parser (exec line_parser rotation
      (run_step line_parser (sample_at_size (entry ''ENTRY-A'')))))) = [''ENTRY-A''] \<and>
   pc restarted_reader = AtRunEntry \<and> offset restarted_reader = 8 \<and>
   offset (run_step line_parser (run_step line_parser (run_step line_parser restarted_reader))) = - 1 \<and>
   in_file (run_step line_parser (run_step line_parser (run_step line_parser restarted_reader))) =
     (''other'', 1) \<and>
   in_pos (run_step line_parser
     (run_step line_parser (run_step line_parser (run_step line_parser restarted_reader)))) = 0"
proof -
  let ?s = "sample_at_size (entry ''ENTRY-A'')"
  let ?acts = "[Append ''log'' (entry ''ENTRY-B'')]"
  let ?s1 = "run_step line_parser ?s"
  let ?s2 = "exec line_parser ?acts ?s1"
  let ?s3 = "run_step line_parser ?s2"
  let ?r2 = "exec line_parser rotation ?s1"
  let ?r3 = "run_step line_parser ?r2"
  have at: "pc ?s = AtSize" by code_simp
  have acts: "list_all file_action ?acts" by simp
  have rot: "list_all file_action rotation" by code_simp
  have n: "int (length (in_bytes ?s)) = 8" by code_simp
  have off: "offset ?s = - 1" by code_simp
  have none: "delivered (emitted ?s) = []" by code_simp
  have fed: "fst (parseStream line_parser (parser ?s) (drop 0 (store (files ?s2) (in_file ?s)))) =
      [''ENTRY-A'', ''ENTRY-B'']"
    by code_simp
  have old: "fst (parseStream line_parser (parser ?s) (drop 0 (store (files ?r2) (in_file ?s)))) =
      [''ENTRY-A'']"
    by code_simp
  have new: "bytes_at (files ?r2) ''log'' = entry ''ENTRY-X''" by code_simp
  note t = C3_start_offset_then_feed [where P = line_parser and s = ?s and acts = ?acts,
      unfolded Let_def n]
  note u = C3_start_offset_then_feed [where P = line_parser and s = ?s and acts = rotation,
      unfolded Let_def n]
  have c1: "in_pos ?s1 = 0" using t at acts off by simp
  have c2: "offset ?s1 = 8" using t at acts by blast
  have "delivered (emitted ?s3) = delivered (emitted ?s) @
      fst (parseStream line_parser (parser ?s) (drop (in_pos ?s1) (store (files ?s2) (in_file ?s))))"
    using t at acts by blast
  then have c3: "delivered (emitted ?s3) = [''ENTRY-A'', ''ENTRY-B'']"
    unfolding c1 none fed by simp
  have "\<forall>n'. 8 \<le> n' \<longrightarrow> seek_pos (offset ?s3) n' = nat 8" using t at acts by blast
  then have c4: "seek_pos (offset ?s3) 16 = 8" by simp
  have "delivered (emitted ?r3) = delivered (emitted ?s) @
      fst (parseStream line_parser (parser ?s) (drop (in_pos ?s1) (store (files ?r2) (in_file ?s))))"
    using u at rot by blast
  then have c5: "delivered (emitted ?r3) = [''ENTRY-A'']"
    unfolding c1 none old by simp
  have re: "pc restarted_reader = AtRunEntry" "\<not> m_stop restarted_reader"
    "present (files restarted_reader) (m_logFilePath restarted_reader)"
    "offset restarted_reader = 8"
    "file_at (files restarted_reader) (m_logFilePath restarted_reader) = (''other'', 1)"
    by code_simp+
  note v = C3_start_offset_then_feed [where P = line_parser and s = restarted_reader,
      unfolded Let_def re(5)]
  from v re(1-3) have c6:
    "offset (run_step line_parser (run_step line_parser (run_step line_parser restarted_reader))) = - 1"
    "in_file (run_step line_parser (run_step line_parser (run_step line_parser restarted_reader))) =
       (''other'', 1)"
    "in_pos (run_step line_parser
       (run_step line_parser (run_step line_parser (run_step line_parser restarted_reader)))) = 0"
    by blast+
  from at c1 c2 c3 c4 new c5 re(1,4) c6 show ?thesis by blast
qed

text \<open>
  C3 as stated fails where it says that bytes appended between the size
  determination and the read are delivered only on the next pass. The first pass
  records the size 8 of a file holding one line; a second line is appended before
  the parser reads. This pass delivers both lines, and the next pass, which starts
  at offset 8, delivers the second line again; the bytes up to the recorded size
  hold the first line only.
\<close>

theorem C3_counterexample:
  "offset (exec line_parser [Tick] (sample_at_size (entry ''ENTRY-A''))) = 8 \<and>
   delivered (emitted (exec line_parser [Tick, Append ''log'' (entry ''ENTRY-B''), Tick]
     (sample_at_size (entry ''ENTRY-A'')))) = [''ENTRY-A'', ''ENTRY-B''] \<and>
   fst (parseStream line_parser (newParser line_parser)
     (take 8 (entry ''ENTRY-A'' @ entry ''ENTRY-B''))) = [''ENTRY-A''] \<and>
   delivered (emitted (exec line_parser
     [Tick, Append ''log'' (entry ''ENTRY-B''), Tick, SetPause False, Tick, Tick, Tick, Tick, Tick, Tick]
     (sample_at_size (entry ''ENTRY-A'')))) = [''ENTRY-A'', ''ENTRY-B'', ''ENTRY-B'']"
  by code_simp

subsection \<open>Failure to open the file\<close>

lemma loop_signals_append: "loop_signals (xs @ ys) = loop_signals xs @ loop_signals ys"
  by (simp add: loop_signals_def)

lemma stopped_step:
  assumes "m_stop s" and "pc s \<in> {NotRunning, AtRunEntry, AtLoopHead}"
    and "keeps_path (m_logFilePath s) a"
  shows "m_stop (step P a s) \<and> pc (step P a s) \<in> {NotRunning, AtRunEntry, AtLoopHead} \<and>
         m_logFilePath (step P a s) = m_logFilePath s \<and>
         loop_signals (emitted (step P a s)) = loop_signals (emitted s)"
proof (cases a)
  case Tick
  with assms show ?thesis by (auto simp: run_step_def)
next
  case Start
  with assms show ?thesis by (auto simp: start_def isRunning_def)
next
  case (SetLogFilePath p)
  with assms show ?thesis by (simp add: setLogFilePath_eq)
next
  case (SetPause b)
  with assms show ?thesis
    by (auto simp: setPause_def wakeAll_def emit_def Let_def loop_signals_append)
      (simp_all add: loop_signals_def)
next
  case (Append p bytes)
  with assms show ?thesis by simp
next
  case (Write p bytes)
  with assms show ?thesis by simp
next
  case (Remove p)
  with assms show ?thesis by simp
qed

lemma stopped_exec:
  "m_stop s \<Longrightarrow> pc s \<in> {NotRunning, AtRunEntry, AtLoopHead} \<Longrightarrow>
   list_all (keeps_path (m_logFilePath s)) acts \<Longrightarrow>
   m_stop (exec P acts s) \<and> pc (exec P acts s) \<in> {NotRunning, AtRunEntry, AtLoopHead} \<and>
   loop_signals (emitted (exec P acts s)) = loop_signals (emitted s)"
proof (induction acts arbitrary: s)
  case Nil
  then show ?case by simp
next
  case (Cons a acts)
  from Cons.prems have a: "keeps_path (m_logFilePath s) a"
    and rest: "list_all (keeps_path (m_logFilePath s)) acts" by simp_all
  note st = stopped_step [OF Cons.prems(1,2) a, of P]
  from st rest have "list_all (keeps_path (m_logFilePath (step P a s))) acts" by simp
  from Cons.IH [OF _ _ this] st show ?case by simp
qed

text \<open>
  C5. When the file cannot be opened, the loop sets the stop flag, emits one
  \<^verbatim>\<open>errorOccurred\<close> whose text is \<^verbatim>\<open>Can't open file: \<close> followed by the path, and
  \<^verbatim>\<open>run()\<close> returns. Whatever happens afterwards short of \<^verbatim>\<open>setLogFilePath\<close> with
  another path (steps of the thread, writes to the file, \<^verbatim>\<open>setPause\<close>, a
  \<^verbatim>\<open>setLogFilePath\<close> with the same path, even a new \<^verbatim>\<open>start()\<close>), the stop flag stays
  set, no pass is begun and the loop emits no further signal: the error is the
  only one, and nothing is retried.
\<close>

theorem C5_open_failure_is_terminal:
  "pc s = AtOpen \<Longrightarrow> \<not> present (files s) (m_logFilePath s) \<Longrightarrow>
   list_all (keeps_path (m_logFilePath s)) acts \<Longrightarrow>
   (let s' = run_step P s; r = exec P acts s';
        message = ''Can'' @ [CHR 0x27] @ ''t open file: '' @ m_logFilePath s
    in m_stop s' \<and> \<not> isRunning s' \<and>
       emitted s' = emitted s @ [ErrorOccurred message] \<and>
       m_stop r \<and> pc r \<in> {NotRunning, AtRunEntry, AtLoopHead} \<and>
       loop_signals (emitted r) = loop_signals (emitted s) @ [ErrorOccurred message])"
proof -
  assume at: "pc s = AtOpen" and closed: "\<not> present (files s) (m_logFilePath s)"
    and acts: "list_all (keeps_path (m_logFilePath s)) acts"
  define s' where "s' = run_step P s"
  have s': "m_stop s'" "pc s' = NotRunning" "m_logFilePath s' = m_logFilePath s"
    "emitted s' = emitted s @ [ErrorOccurred (''Can'' @ [CHR 0x27] @ ''t open file: '' @ m_logFilePath s)]"
    using at closed by (simp_all add: s'_def run_step_def emit_def cant_open_def)
  from acts s'(3) have "list_all (keeps_path (m_logFilePath s')) acts" by simp
  from stopped_exec [OF s'(1) _ this, of P] s'(2)
  have "m_stop (exec P acts s') \<and> pc (exec P acts s') \<in> {NotRunning, AtRunEntry, AtLoopHead} \<and>
        loop_signals (emitted (exec P acts s')) = loop_signals (emitted s')"
    by simp
  with s' show ?thesis
    unfolding Let_def s'_def [symmetric]
    by (simp add: isRunning_def loop_signals_append) (simp add: loop_signals_def)
qed

theorem C5_open_failure_is_terminal_witness:
  "pc before_open = AtOpen \<and> \<not> present (files before_open) (m_logFilePath before_open) \<and>
   m_stop (run_step line_parser before_open) \<and> \<not> isRunning (run_step line_parser before_open) \<and>
   emitted (run_step line_parser before_open) =
     [LogFilePathChanged ''gone'', PausedChanged False,
      ErrorOccurred (''Can'' @ [CHR 0x27] @ ''t open file: gone'')] \<and>
   m_stop (exec line_parser retry_same_path (run_step line_parser before_open)) \<and>
   loop_signals (emitted (exec line_parser retry_same_path (run_step line_parser before_open))) =
     [ErrorOccurred (''Can'' @ [CHR 0x27] @ ''t open file: gone'')]"
proof -
  have at: "pc before_open = AtOpen" by code_simp
  have closed: "\<not> present (files before_open) (m_logFilePath before_open)" by code_simp
  have path: "m_logFilePath before_open = ''gone''" by code_simp
  have acts: "list_all (keeps_path (m_logFilePath before_open)) retry_same_path"
    unfolding path by code_simp
  have before: "emitted before_open = [LogFilePathChanged ''gone'', PausedChanged False]"
    by code_simp
  have "loop_signals [LogFilePathChanged ''gone'', PausedChanged False :: string signal] = []"
    by (simp add: loop_signals_def)
  with C5_open_failure_is_terminal [OF at closed acts, of line_parser, unfolded Let_def path before]
    at closed
  show ?thesis by simp
qed

subsection \<open>The order of the signals\<close>

lemma pass_order_append:
  "pass_order (xs @ ys) = foldl observe (pass_order xs) ys"
  by (simp add: pass_order_def)

lemma observe_entries:
  "foldl observe (Some (sz, b)) (map NewLog es) = Some (sz, b \<or> es \<noteq> [])"
  by (induction es arbitrary: b) auto

lemma order_inv_run_step: "order_inv s \<Longrightarrow> order_inv (run_step P s)"
proof (cases "pc s")
  case AtSize
  assume "order_inv s"
  with AtSize show ?thesis
    by (auto simp: order_inv_def run_step_AtSize setFileSize_emitted pass_order_append)
next
  case AtParse
  assume "order_inv s"
  with AtParse show ?thesis
    by (auto simp: order_inv_def run_step_AtParse emit_def pass_order_append observe_entries)
qed (auto simp: order_inv_def run_step_def emit_def pass_order_append)

lemma order_inv_setPause: "order_inv s \<Longrightarrow> order_inv (setPause b s)"
  by (auto simp: order_inv_def setPause_def wakeAll_def emit_def Let_def pass_order_append)

lemma order_inv_start: "order_inv s \<Longrightarrow> order_inv (start s)"
  by (auto simp: order_inv_def start_def isRunning_def)

lemma order_inv_step: "order_inv s \<Longrightarrow> order_inv (step P a s)"
  by (rule step_invariant [where I = order_inv])
    (simp_all add: order_inv_run_step order_inv_setPause order_inv_start,
     auto simp: order_inv_def emit_def pass_order_append)

lemma order_inv_exec: "order_inv s \<Longrightarrow> order_inv (exec P acts s)"
  by (rule exec_invariant [where I = order_inv]) (simp_all add: order_inv_step)

lemma order_inv_constructed: "order_inv (DamageLogFileReader P fs)"
  by (simp add: order_inv_def DamageLogFileReader_def pass_order_def)

text \<open>
  C8 (amended). A pass emits, in this order: \<^verbatim>\<open>fileSizeChanged\<close> with the size, only
  if the size differs from the stored one; a \<^verbatim>\<open>newLog\<close> for each entry the parser
  reports on the stream (which is on the file that was opened); one \<^verbatim>\<open>fileEnd\<close> whose
  payload is the recorded offset narrowed to the 32-bit \<^verbatim>\<open>int\<close> of the signal, which
  is the offset itself when that is below \<open>2^31\<close>. Nothing else is emitted by the loop
  in between, whatever the writers of the file do during the pass. Over a whole execution from
  construction, under every schedule, the loop's signals form a sequence of such
  blocks, one after the other: no block begins before the last one has ended with
  its \<^verbatim>\<open>fileEnd\<close>.
\<close>

theorem C8_pass_signal_order:
  "(pc s = AtSize \<longrightarrow> list_all file_action acts \<longrightarrow>
      (let n = int (length (in_bytes s));
           s1 = run_step P s; s2 = exec P acts s1; s3 = run_step P s2
       in emitted s3 = emitted s @
            (if n = m_fileSize s then [] else [FileSizeChanged n]) @
            map NewLog (fst (parseStream P (parser s)
              (drop (in_pos s1) (store (files s2) (in_file s))))) @
            [FileEnd (fileEnd_arg n)] \<and>
          (n < 2^31 \<longrightarrow> fileEnd_arg n = n))) \<and>
   map_option fst (pass_order (emitted (exec P sched (DamageLogFileReader P fs)))) =
     Some (m_fileSize (exec P sched (DamageLogFileReader P fs)))"
proof -
  have pass: "let n = int (length (in_bytes s));
           s1 = run_step P s; s2 = exec P acts s1; s3 = run_step P s2
       in emitted s3 = emitted s @
            (if n = m_fileSize s then [] else [FileSizeChanged n]) @
            map NewLog (fst (parseStream P (parser s)
              (drop (in_pos s1) (store (files s2) (in_file s))))) @
            [FileEnd (fileEnd_arg n)] \<and>
          (n < 2^31 \<longrightarrow> fileEnd_arg n = n)"
    if at: "pc s = AtSize" and acts: "list_all file_action acts"
  proof -
    define n where "n = int (length (in_bytes s))"
    define s1 where "s1 = run_step P s"
    have s1: "offset s1 = n" "pc s1 = AtParse" "parser s1 = parser s"
      "m_logFilePath s1 = m_logFilePath s" "in_file s1 = in_file s"
      "emitted s1 = emitted s @ (if n = m_fileSize s then [] else [FileSizeChanged n])"
      using at by (auto simp: s1_def n_def run_step_AtSize setFileSize_emitted)
    obtain fs' where s2: "exec P acts s1 = s1\<lparr>files := fs'\<rparr>"
      using exec_file_actions [OF acts] by blast
    have "emitted (run_step P (exec P acts s1)) = emitted s @
            (if n = m_fileSize s then [] else [FileSizeChanged n]) @
            map NewLog (fst (parseStream P (parser s)
              (drop (in_pos s1) (store (files (exec P acts s1)) (in_file s))))) @
            [FileEnd (fileEnd_arg n)]"
      using s1 by (simp add: s2 run_step_AtParse emit_def in_bytes_def)
    moreover have "n < 2^31 \<longrightarrow> fileEnd_arg n = n"
      using fileEnd_arg_small [of n] by (simp add: n_def)
    ultimately show ?thesis
      unfolding Let_def n_def [symmetric] s1_def [symmetric] by blast
  qed
  have "order_inv (exec P sched (DamageLogFileReader P fs))"
    by (rule order_inv_exec [OF order_inv_constructed])
  then have "map_option fst (pass_order (emitted (exec P sched (DamageLogFileReader P fs)))) =
     Some (m_fileSize (exec P sched (DamageLogFileReader P fs)))"
    unfolding order_inv_def by auto
  with pass show ?thesis by blast
qed

theorem C8_pass_signal_order_witness:
  "pc (sample_at_size (entry ''ENTRY-A'')) = AtSize \<and>
   emitted (run_step line_parser (exec line_parser [Append ''log'' (entry ''ENTRY-B'')]
     (run_step line_parser (sample_at_size (entry ''ENTRY-A''))))) =
     [FileSizeChanged 8, NewLog ''ENTRY-A'', NewLog ''ENTRY-B'', FileEnd 8] \<and>
   emitted (run_step line_parser (exec line_parser rotation
     (run_step line_parser (sample_at_size (entry ''ENTRY-A''))))) =
     [FileSizeChanged 8, NewLog ''ENTRY-A'', FileEnd 8] \<and>
   map_option fst (pass_order (emitted (exec line_parser (truncation_run @ [Tick, Tick])
     (DamageLogFileReader line_parser no_files)))) = Some 8"
proof -
  let ?s = "sample_at_size (entry ''ENTRY-A'')"
  let ?acts = "[Append ''log'' (entry ''ENTRY-B'')]"
  let ?s1 = "run_step line_parser ?s"
  let ?s2 = "exec line_parser ?acts ?s1"
  let ?r2 = "exec line_parser rotation ?s1"
  let ?r = "exec line_parser (truncation_run @ [Tick, Tick]) (DamageLogFileReader line_parser no_files)"
  have at: "pc ?s = AtSize" by code_simp
  have acts: "list_all file_action ?acts" by simp
  have rot: "list_all file_action rotation" by code_simp
  have n: "int (length (in_bytes ?s)) = 8" by code_simp
  have old: "m_fileSize ?s = 0" "emitted ?s = []" by code_simp+
  have fed: "fst (parseStream line_parser (parser ?s)
      (drop (in_pos ?s1) (store (files ?s2) (in_file ?s)))) = [''ENTRY-A'', ''ENTRY-B'']"
    by code_simp
  have kept: "fst (parseStream line_parser (parser ?s)
      (drop (in_pos ?s1) (store (files ?r2) (in_file ?s)))) = [''ENTRY-A'']"
    by code_simp
  have narrow: "fileEnd_arg 8 = 8" by (simp add: fileEnd_arg_def)
  have size: "m_fileSize ?r = 8" unfolding truncation_run_def by code_simp
  note t = C8_pass_signal_order [of ?s ?acts line_parser "truncation_run @ [Tick, Tick]" no_files,
      unfolded Let_def n old fed narrow size]
  note u = C8_pass_signal_order [of ?s rotation line_parser "truncation_run @ [Tick, Tick]" no_files,
      unfolded Let_def n old kept narrow size]
  from t u at acts rot show ?thesis by simp
qed

text \<open>
  C8 as stated fails where it says that the batch end carries the offset reached.
  A pass over a file of 2147483653 bytes (\<open>2^31 + 5\<close>) records that size as its
  offset and ends with \<^verbatim>\<open>fileEnd\<close> carrying -2147483643.
\<close>

theorem C8_counterexample:
  "offset (run_step line_parser (sample_at_size (replicate 2147483653 (CHR ''x'')))) = 2147483653 \<and>
   last (emitted (run_step line_parser (run_step line_parser
     (sample_at_size (replicate 2147483653 (CHR ''x'')))))) = FileEnd (- 2147483643)"
proof -
  let ?s = "sample_at_size (replicate 2147483653 (CHR ''x''))"
  have at: "pc ?s = AtSize" by (simp add: sample_at_size_def)
  have n: "length (in_bytes ?s) = 2147483653"
    by (simp add: sample_at_size_def DamageLogFileReader_def one_file_def create_file_def
        no_files_def in_bytes_def)
  have narrow: "fileEnd_arg 2147483653 = - 2147483643" by (simp add: fileEnd_arg_def)
  have s1: "offset (run_step line_parser ?s) = 2147483653" "pc (run_step line_parser ?s) = AtParse"
    using at by (simp_all add: run_step_AtSize n)
  have "last (emitted (run_step line_parser (run_step line_parser ?s))) =
      FileEnd (fileEnd_arg (offset (run_step line_parser ?s)))"
    using s1(2) by (simp add: run_step_AtParse emit_def)
  with s1(1) narrow show ?thesis by simp
qed

subsection \<open>Changing the path\<close>

lemma funpow_run_step_m_stop: "m_stop s \<Longrightarrow> m_stop ((run_step P ^^ n) s)"
  by (induction n) (simp_all add: run_step_m_stop)

lemma run_step_keeps:
  "m_paused (run_step P s) = m_paused s \<and> m_logFilePath (run_step P s) = m_logFilePath s \<and>
   files (run_step P s) = files s"
  by (cases "pc s") (simp_all add: run_step_def Let_def emit_def split: prod.splits)

lemma funpow_run_step_keeps:
  "m_paused ((run_step P ^^ n) s) = m_paused s \<and> m_logFilePath ((run_step P ^^ n) s) = m_logFilePath s \<and>
   files ((run_step P ^^ n) s) = files s"
  by (induction n) (simp_all add: run_step_keeps)

lemma six_steps: "(run_step P ^^ 6) s = exec P [Tick, Tick, Tick, Tick, Tick, Tick] s"
  by (simp add: eval_nat_numeral funpow_swap1)

text \<open>
  C4 (amended). \<^verbatim>\<open>setLogFilePath\<close> with the current path returns with the state as it
  was: no stop, no signal. With another path it returns, too: it has set the stop
  flag and waited until \<^verbatim>\<open>run()\<close> has returned, cleared the flag, stored the path and
  emitted \<^verbatim>\<open>logFilePathChanged\<close> with it as the last signal; the pause flag and the
  files are as before. It does not start the thread: on return no loop is running.
\<close>

theorem C4_setLogFilePath:
  "setLogFilePath P (m_logFilePath s) s = Some s \<and>
   (path \<noteq> m_logFilePath s \<longrightarrow>
      (\<exists>s'. setLogFilePath P path s = Some s' \<and>
         \<not> isRunning s' \<and> \<not> m_stop s' \<and> m_logFilePath s' = path \<and>
         m_paused s' = m_paused s \<and> files s' = files s \<and>
         emitted s' =
           emitted ((run_step P ^^ 6) (s\<lparr>m_stop := True\<rparr>)) @ [LogFilePathChanged path] \<and>
         (\<not> isRunning s \<longrightarrow> emitted s' = emitted s @ [LogFilePathChanged path])))"
proof -
  let ?s1 = "(run_step P ^^ 6) (s\<lparr>m_stop := True\<rparr>)"
  have exited: "pc ?s1 = NotRunning"
    by (rule funpow_run_step_exits) (simp_all add: steps_to_exit_le)
  have idle: "?s1 = s\<lparr>m_stop := True\<rparr>" if "\<not> isRunning s"
    using that by (intro funpow_run_step_NotRunning) (simp add: isRunning_def)
  have "emitted ?s1 = emitted s" if "\<not> isRunning s"
    using idle [OF that] by simp
  with exited funpow_run_step_keeps [where P = P and n = 6 and s = "s\<lparr>m_stop := True\<rparr>"]
  show ?thesis
    by (simp add: setLogFilePath_eq emit_def isRunning_def)
qed

theorem C4_setLogFilePath_witness:
  "isRunning waiting_reader \<and>
   setLogFilePath line_parser ''log'' waiting_reader = Some waiting_reader \<and>
   (\<exists>s'. setLogFilePath line_parser ''other'' waiting_reader = Some s' \<and>
      \<not> isRunning s' \<and> \<not> m_stop s' \<and> m_logFilePath s' = ''other'' \<and>
      emitted s' = [LogFilePathChanged ''log'', FileSizeChanged 8, NewLog ''ENTRY-A'', FileEnd 8,
                    LogFilePathChanged ''other''])"
proof -
  have path: "m_logFilePath waiting_reader = ''log''" by code_simp
  have running: "isRunning waiting_reader" by code_simp
  have sigs: "emitted ((run_step line_parser ^^ 6) (waiting_reader\<lparr>m_stop := True\<rparr>)) =
      [LogFilePathChanged ''log'', FileSizeChanged 8, NewLog ''ENTRY-A'', FileEnd 8]"
    unfolding six_steps by code_simp
  from C4_setLogFilePath [where P = line_parser and s = waiting_reader and path = "''other''",
      unfolded path sigs] running
  show ?thesis by auto
qed

text \<open>
  C4 as stated fails where it says that \<^verbatim>\<open>setLogFilePath\<close> starts a new loop. A reader
  whose loop is running is given another path: afterwards no loop is running, and
  further steps of the thread deliver nothing from the new file. The first path
  given to a constructed reader does not start a loop either.
\<close>

theorem C4_counterexample:
  "isRunning waiting_reader \<and>
   \<not> isRunning (exec line_parser [SetLogFilePath ''other''] waiting_reader) \<and>
   emitted (exec line_parser [SetLogFilePath ''other'', Tick, Tick, Tick, Tick, Tick, Tick] waiting_reader) =
     [LogFilePathChanged ''log'', FileSizeChanged 8, NewLog ''ENTRY-A'', FileEnd 8,
      LogFilePathChanged ''other''] \<and>
   \<not> isRunning (exec line_parser [SetLogFilePath ''log''] (DamageLogFileReader line_parser two_files))"
  by code_simp

subsection \<open>Stopping\<close>

text \<open>
  C7 (amended). Once the stop flag is set the loop begins no further pass and
  \<^verbatim>\<open>run()\<close> returns at the next check of the loop head, after at most six steps.
  The sleep before that check is not skipped when stop was requested during the
  wait: a thread in the pause wait goes on to the check of the pause condition,
  finds it false, executes the sleep of line 123 all the same, comes to the loop
  head and leaves, having emitted nothing; likewise from the pause check and from
  the sleep. \<^verbatim>\<open>stop()\<close> returns once the thread has finished and leaves the flag
  cleared, so that the thread can be started again and enters the loop.
\<close>

theorem C7_stop_exits_after_sleep:
  "(m_stop s \<longrightarrow>
      pc ((run_step P ^^ 6) s) = NotRunning \<and>
      (pc s = AtPauseWait \<longrightarrow>
         trail P 4 s = [AtPauseWait, AtPauseCheck, AtSleep, AtLoopHead, NotRunning] \<and>
         emitted ((run_step P ^^ 4) s) = emitted s) \<and>
      (pc s = AtPauseCheck \<longrightarrow>
         trail P 3 s = [AtPauseCheck, AtSleep, AtLoopHead, NotRunning] \<and>
         emitted ((run_step P ^^ 3) s) = emitted s) \<and>
      (pc s = AtSleep \<longrightarrow>
         trail P 2 s = [AtSleep, AtLoopHead, NotRunning] \<and>
         emitted ((run_step P ^^ 2) s) = emitted s)) \<and>
   (\<exists>s'. stop P s = Some s' \<and> \<not> isRunning s' \<and> \<not> m_stop s' \<and>
      pc (run_step P (start s')) = AtLoopHead \<and>
      pc (run_step P (run_step P (start s'))) = AtOpen)"
proof -
  have exit: "pc ((run_step P ^^ 6) s) = NotRunning" if "m_stop s"
    using that by (rule funpow_run_step_exits) (simp add: steps_to_exit_le)
  have w: "trail P 4 s = [AtPauseWait, AtPauseCheck, AtSleep, AtLoopHead, NotRunning] \<and>
         emitted ((run_step P ^^ 4) s) = emitted s" if "m_stop s" "pc s = AtPauseWait"
    using that by (simp add: eval_nat_numeral run_step_def)
  have c: "trail P 3 s = [AtPauseCheck, AtSleep, AtLoopHead, NotRunning] \<and>
         emitted ((run_step P ^^ 3) s) = emitted s" if "m_stop s" "pc s = AtPauseCheck"
    using that by (simp add: eval_nat_numeral run_step_def)
  have sl: "trail P 2 s = [AtSleep, AtLoopHead, NotRunning] \<and>
         emitted ((run_step P ^^ 2) s) = emitted s" if "m_stop s" "pc s = AtSleep"
    using that by (simp add: eval_nat_numeral run_step_def)
  let ?s' = "((run_step P ^^ 6) (s\<lparr>m_stop := True\<rparr>))\<lparr>m_stop := False\<rparr>"
  have "pc ((run_step P ^^ 6) (s\<lparr>m_stop := True\<rparr>)) = NotRunning"
    by (rule funpow_run_step_exits) (simp_all add: steps_to_exit_le)
  then have "stop P s = Some ?s' \<and> \<not> isRunning ?s' \<and> \<not> m_stop ?s' \<and>
      pc (run_step P (start ?s')) = AtLoopHead \<and>
      pc (run_step P (run_step P (start ?s'))) = AtOpen"
    by (simp add: stop_eq isRunning_def start_def run_step_def)
  then have "\<exists>s'. stop P s = Some s' \<and> \<not> isRunning s' \<and> \<not> m_stop s' \<and>
      pc (run_step P (start s')) = AtLoopHead \<and>
      pc (run_step P (run_step P (start s'))) = AtOpen"
    by blast
  with exit w c sl show ?thesis by blast
qed


theorem C7_stop_exits_after_sleep_witness:
  "m_stop stop_requested \<and> pc stop_requested = AtPauseWait \<and>
   pc ((run_step line_parser ^^ 6) stop_requested) = NotRunning \<and>
   trail line_parser 4 stop_requested = [AtPauseWait, AtPauseCheck, AtSleep, AtLoopHead, NotRunning] \<and>
   emitted ((run_step line_parser ^^ 4) stop_requested) = emitted stop_requested \<and>
   trail line_parser 3 (run_step line_parser stop_requested) =
     [AtPauseCheck, AtSleep, AtLoopHead, NotRunning] \<and>
   trail line_parser 2 (run_step line_parser (run_step line_parser stop_requested)) =
     [AtSleep, AtLoopHead, NotRunning] \<and>
   (\<exists>s'. stop line_parser waiting_reader = Some s' \<and> \<not> isRunning s' \<and> \<not> m_stop s')"
proof -
  let ?s1 = "run_step line_parser stop_requested"
  let ?s2 = "run_step line_parser ?s1"
  have a: "m_stop stop_requested" "pc stop_requested = AtPauseWait" by code_simp+
  have b: "m_stop ?s1" "pc ?s1 = AtPauseCheck" by code_simp+
  have c: "m_stop ?s2" "pc ?s2 = AtSleep" by code_simp+
  from C7_stop_exits_after_sleep [where P = line_parser and s = stop_requested] a
    C7_stop_exits_after_sleep [where P = line_parser and s = ?s1] b
    C7_stop_exits_after_sleep [where P = line_parser and s = ?s2] c
    C7_stop_exits_after_sleep [where P = line_parser and s = waiting_reader]
  show ?thesis by blast
qed

text \<open>
  C7 as stated fails where it says that the sleep is skipped when stop was
  requested during the wait. The stop flag is set while the thread is in the pause
  wait: two steps later the thread is at the sleep of line 123, it is still
  running after that step, and it returns at the fourth step.
\<close>

theorem C7_counterexample:
  "m_stop stop_requested \<and> pc stop_requested = AtPauseWait \<and>
   pc (exec line_parser [Tick, Tick] stop_requested) = AtSleep \<and>
   isRunning (exec line_parser [Tick, Tick, Tick] stop_requested) \<and>
   \<not> isRunning (exec line_parser [Tick, Tick, Tick, Tick] stop_requested)"
  by code_simp

subsection \<open>Pausing\<close>

lemma appended_append: "appended path (as @ bs) = appended path as @ appended path bs"
  by (induction path as rule: appended.induct) simp_all

lemma in_pause_step:
  assumes "in_pause s" and "tick_or_append a"
  shows "in_pause (step P a s) \<and> emitted (step P a s) = emitted s \<and>
         offset (step P a s) = offset s \<and> parser (step P a s) = parser s \<and>
         m_logFilePath (step P a s) = m_logFilePath s \<and> m_fileSize (step P a s) = m_fileSize s \<and>
         bytes_at (files (step P a s)) (m_logFilePath s) =
           bytes_at (files s) (m_logFilePath s) @ appended (m_logFilePath s) [a]"
proof (cases a)
  case Tick
  with assms show ?thesis by (auto simp: in_pause_def run_step_def)
next
  case (Append p bytes)
  with assms show ?thesis by (auto simp: in_pause_def bytes_at_append present_append)
qed (use assms in simp_all)

lemma in_pause_exec:
  "in_pause s \<Longrightarrow> list_all tick_or_append acts \<Longrightarrow>
   in_pause (exec P acts s) \<and> emitted (exec P acts s) = emitted s \<and>
   offset (exec P acts s) = offset s \<and> parser (exec P acts s) = parser s \<and>
   m_logFilePath (exec P acts s) = m_logFilePath s \<and> m_fileSize (exec P acts s) = m_fileSize s \<and>
   bytes_at (files (exec P acts s)) (m_logFilePath s) =
     bytes_at (files s) (m_logFilePath s) @ appended (m_logFilePath s) acts"
proof (induction acts arbitrary: s)
  case Nil
  then show ?case by simp
next
  case (Cons a acts)
  from Cons.prems have a: "tick_or_append a" and rest: "list_all tick_or_append acts" by simp_all
  note st = in_pause_step [OF Cons.prems(1) a, of P]
  from st have "in_pause (step P a s)" by blast
  from Cons.IH [OF this rest] st
  show ?case
    using appended_append [of "m_logFilePath s" "[a]" acts] by simp
qed

lemma resume_steps:
  assumes "pc s = AtPauseCheck" "\<not> m_paused s" "\<not> m_stop s" "present (files s) (m_logFilePath s)"
  shows "(run_step P ^^ 6) s =
     run_step P (run_step P (s\<lparr>in_file := file_at (files s) (m_logFilePath s), pc := AtSize\<rparr>))"
proof -
  have "(run_step P ^^ 4) s = s\<lparr>in_file := file_at (files s) (m_logFilePath s), pc := AtSize\<rparr>"
    using assms by (simp add: eval_nat_numeral run_step_def)
  moreover have "(run_step P ^^ 6) s = run_step P (run_step P ((run_step P ^^ 4) s))"
    by (simp add: eval_nat_numeral)
  ultimately show ?thesis by simp
qed

text \<open>
  C6 (amended). The pause flag is examined only after a pass (line 118). While the
  thread is in the pause loop with the flag set and no stop requested, steps of the
  thread and appends to the file leave the emitted signals, the offset and the
  parser as they are: no I/O, no signal. When \<^verbatim>\<open>setPause(false)\<close> is then called, the
  next pass hands the parser the file from the recorded offset to its end, which
  holds all bytes appended during the pause. (A pass that was due when
  \<^verbatim>\<open>setPause(true)\<close> was called still runs, as does the first pass of a reader that
  was constructed paused: the amended claim is about the thread once it waits.)
\<close>

theorem C6_paused_wait_then_resume:
  "in_pause s \<Longrightarrow> list_all tick_or_append acts \<Longrightarrow>
   0 \<le> offset s \<Longrightarrow> offset s \<le> int (length (bytes_at (files s) (m_logFilePath s))) \<Longrightarrow>
   (let r = exec P acts s; r' = (run_step P ^^ 6) (setPause False r)
    in emitted r = emitted s \<and> offset r = offset s \<and> parser r = parser s \<and>
       pc r \<in> {AtPauseCheck, AtPauseWait} \<and> isPaused r \<and>
       bytes_at (files r) (m_logFilePath s) =
         bytes_at (files s) (m_logFilePath s) @ appended (m_logFilePath s) acts \<and>
       delivered (emitted r') = delivered (emitted s) @
         fst (parseStream P (parser s)
           (drop (nat (offset s)) (bytes_at (files s) (m_logFilePath s)) @
            appended (m_logFilePath s) acts)) \<and>
       offset r' = int (length (bytes_at (files r) (m_logFilePath s))))"
proof -
  assume p: "in_pause s" and acts: "list_all tick_or_append acts"
    and lo: "0 \<le> offset s" and hi: "offset s \<le> int (length (bytes_at (files s) (m_logFilePath s)))"
  define r where "r = exec P acts s"
  define c where "c = bytes_at (files s) (m_logFilePath s)"
  define bs where "bs = appended (m_logFilePath s) acts"
  note ex = in_pause_exec [OF p acts, of P, folded r_def c_def bs_def]
  then have r: "in_pause r" "emitted r = emitted s" "offset r = offset s" "parser r = parser s"
    "m_logFilePath r = m_logFilePath s" "bytes_at (files r) (m_logFilePath s) = c @ bs"
    by blast+
  define r1 where "r1 = setPause False r"
  have r1: "pc r1 = AtPauseCheck" "\<not> m_paused r1" "\<not> m_stop r1"
    "present (files r1) (m_logFilePath r1)"
    "emitted r1 = emitted s @ [PausedChanged False]" "offset r1 = offset s" "parser r1 = parser s"
    "m_logFilePath r1 = m_logFilePath s" "files r1 = files r"
    using r by (auto simp: r1_def in_pause_def setPause_def wakeAll_def emit_def Let_def)
  define r2 where "r2 = r1\<lparr>in_file := file_at (files r1) (m_logFilePath r1), pc := AtSize\<rparr>"
  define full where "full = c @ bs"
  have six: "(run_step P ^^ 6) r1 = run_step P (run_step P r2)"
    unfolding r2_def by (rule resume_steps [OF r1(1-4)])
  have r2: "pc r2 = AtSize" "in_bytes r2 = full"
    "emitted r2 = emitted s @ [PausedChanged False]" "offset r2 = offset s" "parser r2 = parser s"
    "m_logFilePath r2 = m_logFilePath s"
    using r1 r(6) by (simp_all add: r2_def full_def in_bytes_def bytes_at_def)
  have pos: "seek_pos (offset s) (int (length full)) = nat (offset s)"
    using lo hi by (simp add: seek_pos_def c_def full_def)
  have dr: "drop (nat (offset s)) full = drop (nat (offset s)) c @ bs"
    using hi by (simp add: c_def full_def)
  have "delivered (emitted (run_step P (run_step P r2))) =
      delivered (emitted s) @ fst (parseStream P (parser s) (drop (nat (offset s)) full))"
    using r2
    by (simp add: run_step_AtSize run_step_AtParse emit_def setFileSize_emitted
        delivered_append delivered_NewLog pos)
  then have del: "delivered (emitted (run_step P (run_step P r2))) =
      delivered (emitted s) @ fst (parseStream P (parser s) (drop (nat (offset s)) c @ bs))"
    unfolding dr .
  have off: "offset (run_step P (run_step P r2)) = int (length (c @ bs))"
    using r2 by (simp add: run_step_AtSize run_step_AtParse emit_def full_def)
  from r del off show ?thesis
    unfolding Let_def r_def [symmetric] r1_def [symmetric] six c_def [symmetric] bs_def [symmetric]
    by (simp add: in_pause_def isPaused_def)
qed


theorem C6_paused_wait_then_resume_witness:
  "in_pause waiting_reader \<and> list_all tick_or_append appends_in_pause \<and>
   offset waiting_reader = 8 \<and>
   emitted (exec line_parser appends_in_pause waiting_reader) = emitted waiting_reader \<and>
   bytes_at (files (exec line_parser appends_in_pause waiting_reader)) ''log'' =
     entry ''ENTRY-A'' @ entry ''ENTRY-B'' @ entry ''ENTRY-C'' \<and>
   delivered (emitted ((run_step line_parser ^^ 6)
     (setPause False (exec line_parser appends_in_pause waiting_reader)))) =
     [''ENTRY-A'', ''ENTRY-B'', ''ENTRY-C'']"
proof -
  have p: "in_pause waiting_reader" by code_simp
  have acts: "list_all tick_or_append appends_in_pause" by code_simp
  have off: "offset waiting_reader = 8" by code_simp
  have lo: "0 \<le> offset waiting_reader" unfolding off by simp
  have c: "bytes_at (files waiting_reader) ''log'' = entry ''ENTRY-A''"
    by code_simp
  have hi: "offset waiting_reader \<le> int (length (bytes_at (files waiting_reader) (m_logFilePath waiting_reader)))"
    by code_simp
  have path: "m_logFilePath waiting_reader = ''log''" by code_simp
  have bs: "appended ''log'' appends_in_pause = entry ''ENTRY-B'' @ entry ''ENTRY-C''"
    by code_simp
  have d: "delivered (emitted waiting_reader) = [''ENTRY-A'']" by code_simp
  have new: "fst (parseStream line_parser (parser waiting_reader)
      (drop 8 (entry ''ENTRY-A'') @ entry ''ENTRY-B'' @ entry ''ENTRY-C'')) =
      [''ENTRY-B'', ''ENTRY-C'']"
    by code_simp
  note t = C6_paused_wait_then_resume [OF p acts lo hi, of line_parser,
      unfolded Let_def path bs off d]
  from t p acts off show ?thesis by (simp add: c new)
qed

text \<open>
  C6 as stated fails: a pass runs while the pause flag is set. \<^verbatim>\<open>setPause(true)\<close> is
  called while the thread sleeps between two passes, then a line is appended: the
  next pass delivers the line although \<^verbatim>\<open>setPause(false)\<close> has not been called, and
  the reader is paused all the while. Likewise the reader that was constructed
  paused and never resumed has delivered the first line of its file.
\<close>

theorem C6_counterexample:
  "emitted sleeping_reader =
     [LogFilePathChanged ''log'', PausedChanged False, FileSizeChanged 8, NewLog ''ENTRY-A'', FileEnd 8] \<and>
   emitted (exec line_parser pause_then_append sleeping_reader) =
     [LogFilePathChanged ''log'', PausedChanged False, FileSizeChanged 8, NewLog ''ENTRY-A'', FileEnd 8,
      PausedChanged True, FileSizeChanged 16, NewLog ''ENTRY-B'', FileEnd 16] \<and>
   isPaused (exec line_parser pause_then_append sleeping_reader) \<and>
   isPaused waiting_reader \<and>
   emitted waiting_reader =
     [LogFilePathChanged ''log'', FileSizeChanged 8, NewLog ''ENTRY-A'', FileEnd 8]"
  by code_simp

subsection \<open>Tailing against one call of the parser\<close>

lemma compositionalD:
  assumes "compositional P" and "parseStream P ps a = (ea, pa)" and "parseStream P pa b = (eb, pb)"
  shows "parseStream P ps (a @ b) = (ea @ eb, pb)"
  using assms unfolding compositional_def by simp

lemma parsed_upto_extend:
  assumes "k \<le> length bytes"
  shows "parsed_upto P s k (bytes @ extra) = parsed_upto P s k bytes"
  using assms by (simp add: parsed_upto_def)

lemma tail_inv_run_step:
  assumes comp: "compositional P" and inv: "tail_inv P s"
  shows "tail_inv P (run_step P s)"
proof (cases "pc s")
  case NotRunning
  with inv show ?thesis by (simp add: tail_inv_def Let_def)
next
  case AtRunEntry
  with inv show ?thesis by (simp add: tail_inv_def Let_def run_step_def)
next
  case AtLoopHead
  with inv show ?thesis by (auto simp: tail_inv_def Let_def run_step_def parsed_upto_def)
next
  case AtOpen
  with inv show ?thesis by (auto simp: tail_inv_def Let_def run_step_def parsed_upto_def)
next
  case AtSize
  from inv AtSize have "in_bytes s = bytes_at (files s) (m_logFilePath s)"
    by (simp add: tail_inv_def Let_def in_bytes_def bytes_at_def)
  with inv AtSize show ?thesis
    by (auto simp: tail_inv_def Let_def run_step_AtSize seek_pos_def parsed_upto_def
        setFileSize_emitted delivered_append)
next
  case AtParse
  define bytes where "bytes = bytes_at (files s) (m_logFilePath s)"
  define res where "res = parseStream P (parser s) (drop (in_pos s) bytes)"
  from inv AtParse have base: "present (files s) (m_logFilePath s)" "\<not> m_stop s"
    "offset s = int (length bytes)" "in_pos s \<le> length bytes"
    and alt: "(in_pos s = 0 \<and> delivered (emitted s) = [] \<and> parser s = newParser P) \<or>
      parsed_upto P s (in_pos s) bytes"
    and same: "in_bytes s = bytes"
    by (simp_all add: tail_inv_def Let_def bytes_def in_bytes_def bytes_at_def)
  have whole: "parseStream P (newParser P) bytes = (delivered (emitted s) @ fst res, snd res)"
  proof (rule disjE [OF alt])
    assume "in_pos s = 0 \<and> delivered (emitted s) = [] \<and> parser s = newParser P"
    then show ?thesis by (simp add: res_def)
  next
    assume "parsed_upto P s (in_pos s) bytes"
    then have "parseStream P (newParser P) (take (in_pos s) bytes) = (delivered (emitted s), parser s)"
      by (simp add: parsed_upto_def)
    from compositionalD [OF comp this, of "drop (in_pos s) bytes" "fst res" "snd res"]
    show ?thesis by (simp add: res_def)
  qed
  have step: "run_step P s =
      emit (map NewLog (fst res) @ [FileEnd (fileEnd_arg (offset s))])
        (s\<lparr>parser := snd res, pc := AtPauseCheck\<rparr>)"
    using AtParse by (simp add: run_step_AtParse res_def same)
  show ?thesis
    using base whole
    by (simp add: step tail_inv_def Let_def emit_def parsed_upto_def delivered_append
        delivered_NewLog bytes_def [symmetric])
next
  case AtPauseCheck
  with inv show ?thesis by (auto simp: tail_inv_def Let_def run_step_def parsed_upto_def)
next
  case AtPauseWait
  with inv show ?thesis by (auto simp: tail_inv_def Let_def run_step_def parsed_upto_def)
next
  case AtSleep
  with inv show ?thesis by (auto simp: tail_inv_def Let_def run_step_def parsed_upto_def)
qed


lemma tail_inv_append:
  assumes inv: "tail_inv P s" and quiet: "pc s \<noteq> AtParse"
  shows "tail_inv P (append_file p bytes s)"
proof -
  from inv have here: "present (files s) (m_logFilePath s)" by (simp add: tail_inv_def Let_def)
  have c: "bytes_at (files (append_file p bytes s)) (m_logFilePath s) =
      bytes_at (files s) (m_logFilePath s) @ (if p = m_logFilePath s then bytes else [])"
    "present (files (append_file p bytes s)) (m_logFilePath s)"
    "file_at (files (append_file p bytes s)) (m_logFilePath s) = file_at (files s) (m_logFilePath s)"
    using here by (auto simp: bytes_at_append present_append file_at_append)
  from inv quiet c(2) show ?thesis
    unfolding tail_inv_def Let_def append_file_fields c(1,3) parsed_upto_def
    by (cases "pc s") auto
qed

lemma tail_inv_setPause: "tail_inv P s \<Longrightarrow> tail_inv P (setPause b s)"
  by (cases "pc s")
    (auto simp: tail_inv_def setPause_def wakeAll_def emit_def Let_def parsed_upto_def delivered_append)

lemma tail_inv_step:
  assumes "compositional P" and "tail_inv P s" and "tail_action a"
    and "pc s \<noteq> AtParse \<or> \<not> file_action a"
  shows "tail_inv P (step P a s)"
proof (cases a)
  case Tick
  with assms show ?thesis by (simp add: tail_inv_run_step)
next
  case (SetPause b)
  with assms show ?thesis by (simp add: tail_inv_setPause)
next
  case (Append p bytes)
  with assms show ?thesis by (simp add: tail_inv_append)
qed (use assms in simp_all)

lemma tail_inv_exec:
  "compositional P \<Longrightarrow> tail_inv P s \<Longrightarrow> list_all tail_action acts \<Longrightarrow>
   race_free P acts s \<Longrightarrow> tail_inv P (exec P acts s)"
proof (induction acts arbitrary: s)
  case Nil
  then show ?case by simp
next
  case (Cons a acts)
  from Cons.prems have "tail_inv P (step P a s)"
    by (intro tail_inv_step) simp_all
  with Cons show ?case by simp
qed

lemma tail_inv_started:
  assumes "present fs path"
  shows "tail_inv P (exec P [SetLogFilePath path, Start] (DamageLogFileReader P fs)) \<and>
         m_logFilePath (exec P [SetLogFilePath path, Start] (DamageLogFileReader P fs)) = path"
proof -
  have "(run_step P ^^ 6) ((DamageLogFileReader P fs)\<lparr>m_stop := True\<rparr>) =
      (DamageLogFileReader P fs)\<lparr>m_stop := True\<rparr>"
    by (rule funpow_run_step_NotRunning) (simp add: DamageLogFileReader_def)
  with assms show ?thesis
    by (auto simp: setLogFilePath_eq tail_inv_def Let_def start_def isRunning_def emit_def
        DamageLogFileReader_def)
qed

lemma tail_action_keeps_path: "tail_action a \<Longrightarrow> m_logFilePath (step P a s) = m_logFilePath s"
  by (cases a)
    (simp_all add: run_step_keeps setPause_def wakeAll_def emit_def Let_def append_file_def)

lemma tail_actions_keep_path:
  "list_all tail_action acts \<Longrightarrow> m_logFilePath (exec P acts s) = m_logFilePath s"
  by (induction acts arbitrary: s) (simp_all add: tail_action_keeps_path)

text \<open>
  C1 (amended). Take a parser for which it makes no difference where its input is
  cut, a file that exists, and a reader that is given the file's path and started.
  Under every schedule of steps of the thread, appends and \<^verbatim>\<open>setPause\<close> calls in which
  no append falls between the size determination and the read of a pass, at every
  moment at which no pass is between these two points: nothing has been delivered
  as long as no size has been recorded, and afterwards the entries delivered so
  far, in the order of emission, are what the parser reports when it is fed the
  bytes of the file from 0 to the size recorded by the last pass in one call; once a
  pass has recorded the final size, that is the whole file.
\<close>

theorem C1_tailing_equals_one_shot:
  "compositional P \<Longrightarrow> present fs path \<Longrightarrow> list_all tail_action acts \<Longrightarrow>
   race_free P acts (exec P [SetLogFilePath path, Start] (DamageLogFileReader P fs)) \<Longrightarrow>
   (let r = exec P (SetLogFilePath path # Start # acts) (DamageLogFileReader P fs)
    in pc r \<noteq> AtParse \<longrightarrow>
         (offset r < 0 \<longrightarrow> delivered (emitted r) = []) \<and>
         (0 \<le> offset r \<longrightarrow> offset r \<le> int (length (bytes_at (files r) path)) \<and>
            delivered (emitted r) = one_shot P (take (nat (offset r)) (bytes_at (files r) path))) \<and>
         (offset r = int (length (bytes_at (files r) path)) \<longrightarrow>
            delivered (emitted r) = one_shot P (bytes_at (files r) path)))"
proof -
  assume comp: "compositional P" and fopen: "present fs path"
    and acts: "list_all tail_action acts"
    and free: "race_free P acts (exec P [SetLogFilePath path, Start] (DamageLogFileReader P fs))"
  define s0 where "s0 = exec P [SetLogFilePath path, Start] (DamageLogFileReader P fs)"
  define r where "r = exec P acts s0"
  have r_eq: "exec P (SetLogFilePath path # Start # acts) (DamageLogFileReader P fs) = r"
    by (simp add: r_def s0_def)
  have s0: "tail_inv P s0" "m_logFilePath s0 = path"
    unfolding s0_def using tail_inv_started [where fs = fs and path = path and P = P, OF fopen] by blast+
  from tail_inv_exec [OF comp s0(1) acts free [folded s0_def]]
  have inv: "tail_inv P r" by (simp add: r_def)
  have path: "m_logFilePath r = path"
    unfolding r_def by (simp add: tail_actions_keep_path [OF acts] s0(2))
  have "(offset r < 0 \<longrightarrow> delivered (emitted r) = []) \<and>
         (0 \<le> offset r \<longrightarrow> offset r \<le> int (length (bytes_at (files r) path)) \<and>
            delivered (emitted r) = one_shot P (take (nat (offset r)) (bytes_at (files r) path))) \<and>
         (offset r = int (length (bytes_at (files r) path)) \<longrightarrow>
            delivered (emitted r) = one_shot P (bytes_at (files r) path))"
    if "pc r \<noteq> AtParse"
    using inv that unfolding path [symmetric]
    by (cases "pc r") (auto simp: tail_inv_def Let_def parsed_upto_def one_shot_def)
  then show ?thesis unfolding Let_def r_eq by blast
qed


lemma split_lines_append:
  "split_lines pending (a @ b) =
     (fst (split_lines pending a) @ fst (split_lines (snd (split_lines pending a)) b),
      snd (split_lines (snd (split_lines pending a)) b))"
  by (induction a arbitrary: pending) (simp_all add: split_beta)

lemma compositional_line_parser: "compositional line_parser"
  unfolding compositional_def line_parser_def
  by (simp add: split_lines_append)

theorem C1_tailing_equals_one_shot_witness:
  "compositional line_parser \<and> present (one_file ''log'' ''ENTRY'') ''log'' \<and>
   list_all tail_action split_entry_tail \<and>
   race_free line_parser split_entry_tail
     (exec line_parser [SetLogFilePath ''log'', Start]
       (DamageLogFileReader line_parser (one_file ''log'' ''ENTRY''))) \<and>
   offset (exec line_parser split_entry_run (DamageLogFileReader line_parser (one_file ''log'' ''ENTRY''))) = 8 \<and>
   bytes_at (files (exec line_parser split_entry_run
     (DamageLogFileReader line_parser (one_file ''log'' ''ENTRY'')))) ''log'' = entry ''ENTRY-A'' \<and>
   delivered (emitted (exec line_parser split_entry_run
     (DamageLogFileReader line_parser (one_file ''log'' ''ENTRY'')))) = one_shot line_parser (entry ''ENTRY-A'') \<and>
   one_shot line_parser (entry ''ENTRY-A'') = [''ENTRY-A'']"
proof -
  let ?fs = "one_file ''log'' ''ENTRY''"
  let ?r = "exec line_parser split_entry_run (DamageLogFileReader line_parser ?fs)"
  have fopen: "present ?fs ''log''" by code_simp
  have acts: "list_all tail_action split_entry_tail" by code_simp
  have free: "race_free line_parser split_entry_tail
     (exec line_parser [SetLogFilePath ''log'', Start] (DamageLogFileReader line_parser ?fs))"
    by code_simp
  have r: "pc ?r \<noteq> AtParse" "offset ?r = 8" "bytes_at (files ?r) ''log'' = entry ''ENTRY-A''"
    by code_simp+
  have len: "int (length (entry ''ENTRY-A'')) = 8" by code_simp
  have one: "one_shot line_parser (entry ''ENTRY-A'') = [''ENTRY-A'']" by code_simp
  note t = C1_tailing_equals_one_shot [OF compositional_line_parser fopen acts free,
      unfolded Let_def split_entry_run_def [symmetric]]
  from t r len have "delivered (emitted ?r) = one_shot line_parser (entry ''ENTRY-A'')"
    by simp
  with compositional_line_parser fopen acts free r one show ?thesis by blast
qed

text \<open>
  C1 as stated fails in two ways. With a parser that drops an unfinished last line
  (the claim is for any parser), an entry written in two parts, one before each of
  two passes, is delivered as its second part only, while one call on the whole
  file reports the entry. And with the parser that completes unfinished lines, a
  line appended between the size determination and the read of a pass is
  delivered by that pass and again by the next, while one call on the whole file
  reports it once. In both runs the last pass has recorded the final size.
\<close>

theorem C1_counterexample:
  "delivered (emitted (exec forgetful_parser split_entry_run
     (DamageLogFileReader forgetful_parser (one_file ''log'' ''ENTRY'')))) = [''-A''] \<and>
   offset (exec forgetful_parser split_entry_run
     (DamageLogFileReader forgetful_parser (one_file ''log'' ''ENTRY''))) = 8 \<and>
   bytes_at (files (exec forgetful_parser split_entry_run
     (DamageLogFileReader forgetful_parser (one_file ''log'' ''ENTRY'')))) ''log'' = entry ''ENTRY-A'' \<and>
   one_shot forgetful_parser (entry ''ENTRY-A'') = [''ENTRY-A''] \<and>
   delivered (emitted (exec line_parser racing_run
     (DamageLogFileReader line_parser (one_file ''log'' (entry ''ENTRY-A''))))) =
     [''ENTRY-A'', ''ENTRY-B'', ''ENTRY-B''] \<and>
   offset (exec line_parser racing_run
     (DamageLogFileReader line_parser (one_file ''log'' (entry ''ENTRY-A'')))) = 16 \<and>
   bytes_at (files (exec line_parser racing_run
     (DamageLogFileReader line_parser (one_file ''log'' (entry ''ENTRY-A''))))) ''log'' =
     entry ''ENTRY-A'' @ entry ''ENTRY-B'' \<and>
   one_shot line_parser (entry ''ENTRY-A'' @ entry ''ENTRY-B'') = [''ENTRY-A'', ''ENTRY-B'']"
  by code_simp

end
